theory Spec2Isabelle
  imports Complex_Main "HOL-Library.Multiset" "HOL-Library.Product_Lexorder"
begin

section \<open>The worker script\<close>

text \<open>
  The development embeds the worker script \<^verbatim>\<open>src/Worker.js\<close>: the three sorting
  functions, the six task handlers, the message listener and the startup code. Each
  definition follows one function (or one loop body) of the script and keeps its names.

  Conventions of the embedding:
  \<^item> A message posted with \<open>self.postMessage\<close> is a value of the datatype \<open>message\<close>; a
    handler returns the list of messages it has posted, in order, together with the
    exception it has thrown, if any. The \<open>timestamp\<close> of every message, the \<open>duration\<close>
    of a sort, the \<open>stack\<close> of an error and the \<open>dummyResult\<close> of a simulated step depend
    on the clock or are constants of no interest; they are not part of the messages here.
  \<^item> A JavaScript number is a value of \<open>jsnum\<close>: NaN, the two infinities or a finite real.
    The result of a finite operation is rounded to a double by a function \<open>rnd\<close>, which
    the definitions take as a parameter and which may return an infinity (overflow);
    \<open>Math.sqrt\<close> is the parameter \<open>msqrt\<close>. Negative zero is a value of its own where
    the script can tell it from zero, in the \<open>steps\<close> of simulateWork and in the arrays
    of sortArray (the type \<open>jsval\<close>), and is identified with zero elsewhere.
  \<^item> Counters, indices and the values of \<open>fib\<close> are natural numbers or integers. Their
    arithmetic is exact in double precision as long as the results stay below \<open>2^53\<close>; the
    only sums that can exceed it are those of \<open>fib\<close> and the counter of simulateWork,
    where the rounding is written out.
  \<^item> The fields of a request have the types the handlers expect (\<open>numbers\<close> a list of
    numbers, \<open>n\<close> an integer, and so on); a field may be absent (\<open>None\<close>), which is
    JavaScript's \<open>undefined\<close>.
\<close>

subsection \<open>Sorting functions\<close>

text \<open>
  The sorting functions compare array elements with the operators \<open><\<close> and \<open>>\<close>. For
  numbers these compare the numeric values of their operands, \<open>a > b\<close> is \<open>b < a\<close>, and
  a comparison in which an operand is NaN is false. The function \<open>num\<close> gives the numeric
  value of an element in a linear order, or \<open>None\<close> when the element is NaN;
  \<open>js_less num\<close> is the operator \<open><\<close>. Two elements may have the same numeric value
  and yet be different (0 and -0 are), which is what stability is about.
\<close>

definition js_less :: "('a \<Rightarrow> 'k::linorder option) \<Rightarrow> 'a \<Rightarrow> 'a \<Rightarrow> bool" where
  "js_less num a b =
     (case num a of
        None \<Rightarrow> False
      | Some x \<Rightarrow> (case num b of None \<Rightarrow> False | Some y \<Rightarrow> x < y))"

text \<open>
  The numeric value of an element that is not NaN.
\<close>

definition numeric :: "('a \<Rightarrow> 'k option) \<Rightarrow> 'a \<Rightarrow> 'k" where
  "numeric num a = the (num a)"

lemma js_less_irrefl [simp]: "\<not> js_less num a a"
  by (simp add: js_less_def split: option.splits)

lemma js_less_asym: "js_less num a b \<Longrightarrow> \<not> js_less num b a"
  by (auto simp: js_less_def split: option.splits)

text \<open>
  \<open>quickSort\<close> (lines 330-349). The body of the loop \<open>for (const element of arr)\<close>
  pushes the element to \<open>left\<close>, \<open>right\<close> or \<open>equal\<close>; \<open>partition3\<close> is the whole loop,
  started with three empty arrays.
\<close>

definition partition_step ::
  "('a \<Rightarrow> 'k::linorder option) \<Rightarrow> 'a \<Rightarrow> 'a list \<times> 'a list \<times> 'a list \<Rightarrow> 'a
     \<Rightarrow> 'a list \<times> 'a list \<times> 'a list" where
  "partition_step num pivot acc element =
     (case acc of (left, right, equal) \<Rightarrow>
        if js_less num element pivot then (left @ [element], right, equal)
        else if js_less num pivot element then (left, right @ [element], equal)
        else (left, right, equal @ [element]))"

definition partition3 ::
  "('a \<Rightarrow> 'k::linorder option) \<Rightarrow> 'a \<Rightarrow> 'a list \<Rightarrow> 'a list \<times> 'a list \<times> 'a list" where
  "partition3 num pivot arr = foldl (partition_step num pivot) ([], [], []) arr"

text \<open>
  The three parts are the elements below the pivot, those above it and the others (those
  level with the pivot and NaN), in their original order. The pivot itself is in neither
  \<open>left\<close> nor \<open>right\<close>, which is why the recursion of \<open>quickSort\<close> terminates.
\<close>

lemma foldl_partition_step:
  "foldl (partition_step num pivot) (l, r, e) xs =
     (l @ filter (\<lambda>x. js_less num x pivot) xs,
      r @ filter (\<lambda>x. js_less num pivot x) xs,
      e @ filter (\<lambda>x. \<not> js_less num x pivot \<and> \<not> js_less num pivot x) xs)"
  by (induction xs arbitrary: l r e) (auto simp: partition_step_def dest: js_less_asym)

lemma partition3_filter:
  "partition3 num pivot arr =
     (filter (\<lambda>x. js_less num x pivot) arr,
      filter (\<lambda>x. js_less num pivot x) arr,
      filter (\<lambda>x. \<not> js_less num x pivot \<and> \<not> js_less num pivot x) arr)"
  by (simp add: partition3_def foldl_partition_step)

text \<open>
  \<open>quickSort\<close> returns an array of at most one element as it is; otherwise the pivot is
  the element at index \<open>Math.floor(arr.length / 2)\<close> and the result is
  \<open>[...quickSort(left), ...equal, ...quickSort(right)]\<close>.
\<close>

function quickSort :: "('a \<Rightarrow> 'k::linorder option) \<Rightarrow> 'a list \<Rightarrow> 'a list" where
  "quickSort num arr =
     (if length arr \<le> 1 then arr
      else (let pivot = arr ! (length arr div 2) in
            (case partition3 num pivot arr of
               (left, right, equal) \<Rightarrow> quickSort num left @ equal @ quickSort num right)))"
  by pat_completeness auto
termination
proof (relation "measure (\<lambda>(num, arr). length arr)")
  show "wf (measure (\<lambda>(num, arr). length arr))" by simp
next
  fix num :: "'a \<Rightarrow> 'k::linorder option" and arr :: "'a list" and pivot left rest right equal
  assume big: "\<not> length arr \<le> 1" and p: "pivot = arr ! (length arr div 2)"
    and part: "(left, rest) = partition3 num pivot arr" "(right, equal) = rest"
  have "pivot \<in> set arr" using big p by simp
  moreover have "left = filter (\<lambda>x. js_less num x pivot) arr"
    using part by (simp add: partition3_filter)
  ultimately have "length left < length arr"
    by (metis (mono_tags, lifting) length_filter_less js_less_irrefl)
  then show "((num, left), (num, arr)) \<in> measure (\<lambda>(num, arr). length arr)" by simp
next
  fix num :: "'a \<Rightarrow> 'k::linorder option" and arr :: "'a list" and pivot left rest right equal
  assume big: "\<not> length arr \<le> 1" and p: "pivot = arr ! (length arr div 2)"
    and part: "(left, rest) = partition3 num pivot arr" "(right, equal) = rest"
  have "pivot \<in> set arr" using big p by simp
  moreover have "right = filter (\<lambda>x. js_less num pivot x) arr"
    using part by (simp add: partition3_filter)
  ultimately have "length right < length arr"
    by (metis (mono_tags, lifting) length_filter_less js_less_irrefl)
  then show "((num, right), (num, arr)) \<in> measure (\<lambda>(num, arr). length arr)" by simp
qed

declare quickSort.simps [simp del]

text \<open>
  \<open>merge\<close> (lines 362-377). \<open>merge_loop\<close> is the \<open>while\<close> loop with its two indices
  \<open>i\<close> and \<open>j\<close> and the array \<open>result\<close>; when one side is exhausted the function returns
  \<open>result.concat(left.slice(i)).concat(right.slice(j))\<close>. Both indices stay within their
  arrays while the loop runs.
\<close>

function merge_loop ::
  "('a \<Rightarrow> 'k::linorder option) \<Rightarrow> 'a list \<Rightarrow> 'a list \<Rightarrow> nat \<Rightarrow> nat \<Rightarrow> 'a list \<Rightarrow> 'a list" where
  "merge_loop num left right i j result =
     (if i < length left \<and> j < length right then
        (if js_less num (left ! i) (right ! j)
         then merge_loop num left right (i + 1) j (result @ [left ! i])
         else merge_loop num left right i (j + 1) (result @ [right ! j]))
      else result @ drop i left @ drop j right)"
  by pat_completeness auto
termination
  by (relation "measure (\<lambda>(num, left, right, i, j, result). (length left - i) + (length right - j))") auto

declare merge_loop.simps [simp del]

definition merge :: "('a \<Rightarrow> 'k::linorder option) \<Rightarrow> 'a list \<Rightarrow> 'a list \<Rightarrow> 'a list" where
  "merge num left right = merge_loop num left right 0 0 []"

text \<open>
  \<open>mergeSort\<close> (lines 352-360): \<open>arr.slice(0, mid)\<close> is \<open>take mid arr\<close> and
  \<open>arr.slice(mid)\<close> is \<open>drop mid arr\<close>.
\<close>

function mergeSort :: "('a \<Rightarrow> 'k::linorder option) \<Rightarrow> 'a list \<Rightarrow> 'a list" where
  "mergeSort num arr =
     (if length arr \<le> 1 then arr
      else (let mid = length arr div 2;
                left = mergeSort num (take mid arr);
                right = mergeSort num (drop mid arr)
            in merge num left right))"
  by pat_completeness auto
termination
  by (relation "measure (\<lambda>(num, arr). length arr)") auto

declare mergeSort.simps [simp del]

text \<open>
  \<open>bubbleSort\<close> (lines 380-390) sorts the array it is given in place; here the array is
  passed through the loops as a list. \<open>swap_step\<close> is the body of the inner loop: the
  test \<open>arr[j] > arr[j + 1]\<close> is \<open>arr[j + 1] < arr[j]\<close>, and the destructuring
  assignment \<open>[arr[j], arr[j + 1]] = [arr[j + 1], arr[j]]\<close> reads both elements before it
  writes. \<open>inner_loop\<close> runs \<open>j\<close> from 0 while \<open>j < n - i - 1\<close>, and
  \<open>bubbleSort\<close> runs \<open>i\<close> from 0 while \<open>i < n - 1\<close>; every index read or written is
  below \<open>n\<close>. For the empty array \<open>n - 1\<close> is negative in the script and 0 here: no pass
  is made in either.
\<close>

definition swap_step :: "('a \<Rightarrow> 'k::linorder option) \<Rightarrow> nat \<Rightarrow> 'a list \<Rightarrow> 'a list" where
  "swap_step num j arr =
     (if js_less num (arr ! (j + 1)) (arr ! j)
      then arr[j := arr ! (j + 1), j + 1 := arr ! j]
      else arr)"

definition inner_loop :: "('a \<Rightarrow> 'k::linorder option) \<Rightarrow> nat \<Rightarrow> nat \<Rightarrow> 'a list \<Rightarrow> 'a list" where
  "inner_loop num n i arr = fold (swap_step num) [0..<n - i - 1] arr"

definition bubbleSort :: "('a \<Rightarrow> 'k::linorder option) \<Rightarrow> 'a list \<Rightarrow> 'a list" where
  "bubbleSort num arr = (let n = length arr in fold (inner_loop num n) [0..<n - 1] arr)"

subsection \<open>JavaScript numbers\<close>

text \<open>
  The values of JavaScript's number type, without the sign of zero (see \<open>jsval\<close> below
  for the numbers whose sign of zero matters). The comparisons
  \<open>jlt\<close> (\<open><\<close>) and \<open>jle\<close> (\<open><=\<close>) are false whenever an operand is NaN.
\<close>

datatype jsnum = NaN | NegInf | Fin real | PosInf

fun jlt :: "jsnum \<Rightarrow> jsnum \<Rightarrow> bool" where
  "jlt NaN _ = False"
| "jlt _ NaN = False"
| "jlt PosInf _ = False"
| "jlt _ NegInf = False"
| "jlt NegInf _ = True"
| "jlt _ PosInf = True"
| "jlt (Fin a) (Fin b) = (a < b)"

fun jle :: "jsnum \<Rightarrow> jsnum \<Rightarrow> bool" where
  "jle NaN _ = False"
| "jle _ NaN = False"
| "jle NegInf _ = True"
| "jle _ PosInf = True"
| "jle PosInf _ = False"
| "jle _ NegInf = False"
| "jle (Fin a) (Fin b) = (a \<le> b)"

text \<open>
  Addition, multiplication and division follow IEEE 754: NaN is absorbing, the sum of
  opposite infinities, the product of an infinity and zero and the quotient of two
  infinities or of two zeros are NaN; a finite non-zero number divided by zero is an
  infinity of the dividend's sign (the zero is +0: the zero divisors of the script are
  lengths and counts, and the \<open>steps\<close> of simulateWork, for which see \<open>jdiv_val\<close>). The exact result of an operation on finite operands
  is handed to the rounding function.
\<close>

fun jadd :: "(real \<Rightarrow> jsnum) \<Rightarrow> jsnum \<Rightarrow> jsnum \<Rightarrow> jsnum" where
  "jadd rnd NaN _ = NaN"
| "jadd rnd _ NaN = NaN"
| "jadd rnd PosInf NegInf = NaN"
| "jadd rnd NegInf PosInf = NaN"
| "jadd rnd PosInf _ = PosInf"
| "jadd rnd _ PosInf = PosInf"
| "jadd rnd NegInf _ = NegInf"
| "jadd rnd _ NegInf = NegInf"
| "jadd rnd (Fin a) (Fin b) = rnd (a + b)"

definition jsign_inf :: "real \<Rightarrow> jsnum" where
  "jsign_inf s = (if s = 0 then NaN else if 0 < s then PosInf else NegInf)"

fun jsgn :: "jsnum \<Rightarrow> real" where
  "jsgn NaN = 0"
| "jsgn NegInf = -1"
| "jsgn PosInf = 1"
| "jsgn (Fin a) = sgn a"

fun jmul :: "(real \<Rightarrow> jsnum) \<Rightarrow> jsnum \<Rightarrow> jsnum \<Rightarrow> jsnum" where
  "jmul rnd NaN _ = NaN"
| "jmul rnd _ NaN = NaN"
| "jmul rnd (Fin a) (Fin b) = rnd (a * b)"
| "jmul rnd x y = jsign_inf (jsgn x * jsgn y)"

fun jdiv :: "(real \<Rightarrow> jsnum) \<Rightarrow> jsnum \<Rightarrow> jsnum \<Rightarrow> jsnum" where
  "jdiv rnd NaN _ = NaN"
| "jdiv rnd _ NaN = NaN"
| "jdiv rnd (Fin a) (Fin b) = (if b = 0 then jsign_inf a else rnd (a / b))"
| "jdiv rnd (Fin a) _ = Fin 0"
| "jdiv rnd x (Fin b) = jsign_inf (jsgn x * (if b < 0 then -1 else 1))"
| "jdiv rnd _ _ = NaN"

text \<open>
  \<open>Math.abs\<close>, \<open>Math.sqrt\<close> and \<open>Math.floor\<close>. \<open>Math.max\<close> and \<open>Math.min\<close> of a list
  are folds of \<open>jmax\<close> and \<open>jmin\<close> from negative and positive infinity, the values
  these functions have for no arguments; a NaN argument makes the result NaN.
\<close>

fun jabs :: "jsnum \<Rightarrow> jsnum" where
  "jabs NaN = NaN"
| "jabs NegInf = PosInf"
| "jabs PosInf = PosInf"
| "jabs (Fin a) = Fin \<bar>a\<bar>"

fun jsqrt :: "(real \<Rightarrow> jsnum) \<Rightarrow> jsnum \<Rightarrow> jsnum" where
  "jsqrt msqrt NaN = NaN"
| "jsqrt msqrt NegInf = NaN"
| "jsqrt msqrt PosInf = PosInf"
| "jsqrt msqrt (Fin a) = (if a < 0 then NaN else msqrt a)"

fun jfloor :: "jsnum \<Rightarrow> jsnum" where
  "jfloor (Fin a) = Fin (of_int \<lfloor>a\<rfloor>)"
| "jfloor x = x"

fun jmax :: "jsnum \<Rightarrow> jsnum \<Rightarrow> jsnum" where
  "jmax NaN _ = NaN"
| "jmax _ NaN = NaN"
| "jmax x y = (if jlt x y then y else x)"

fun jmin :: "jsnum \<Rightarrow> jsnum \<Rightarrow> jsnum" where
  "jmin NaN _ = NaN"
| "jmin _ NaN = NaN"
| "jmin x y = (if jlt y x then y else x)"

text \<open>
  A number as a message carries it, with the sign of a zero: \<open>MinusZero\<close> is -0 and
  \<open>Number (Fin 0)\<close> is +0. The script can tell the two apart where it divides by a number
  it was sent (the \<open>steps\<close> of simulateWork) and where it orders the numbers it was sent (the
  array of sortArray); these are values of \<open>jsval\<close>. A number divided by -0 is the opposite
  of the number divided by +0.
\<close>

datatype jsval = Number jsnum | MinusZero

fun num_of :: "jsval \<Rightarrow> jsnum" where
  "num_of (Number x) = x"
| "num_of MinusZero = Fin 0"

fun jneg :: "jsnum \<Rightarrow> jsnum" where
  "jneg NaN = NaN"
| "jneg NegInf = PosInf"
| "jneg PosInf = NegInf"
| "jneg (Fin a) = Fin (- a)"

definition jdiv_val :: "(real \<Rightarrow> jsnum) \<Rightarrow> jsnum \<Rightarrow> jsval \<Rightarrow> jsnum" where
  "jdiv_val rnd x d =
     (case d of Number y \<Rightarrow> jdiv rnd x y | MinusZero \<Rightarrow> jneg (jdiv rnd x (Fin 0)))"

text \<open>
  The numeric value of a number in a linear order, for the operator \<open><\<close> of the sorting
  functions: the pairs are ordered by their first component, which puts the infinities
  around the finite numbers, and then by their second. NaN has no value, and the two zeros
  have the same.
\<close>

definition val_key :: "jsval \<Rightarrow> (int \<times> real) option" where
  "val_key v =
     (case num_of v of
        NaN \<Rightarrow> None
      | NegInf \<Rightarrow> Some (- 1, 0)
      | Fin x \<Rightarrow> Some (0, x)
      | PosInf \<Rightarrow> Some (1, 0))"

text \<open>
  Natural numbers as doubles. A double has a significand of 53 bits: a natural number below
  \<open>2^53\<close> is a double, and a larger one is rounded to the nearest multiple of \<open>2^e\<close>,
  where \<open>e\<close> is the number of its bits beyond 53, to the one with an even quotient on a
  tie. \<open>js_add\<close> is the sum of two doubles that hold natural numbers.
\<close>

fun bit_length :: "nat \<Rightarrow> nat" where
  "bit_length n = (if n = 0 then 0 else Suc (bit_length (n div 2)))"

declare bit_length.simps [simp del]

definition round_to_double :: "nat \<Rightarrow> nat" where
  "round_to_double n =
     (if n < 2 ^ 53 then n
      else (let e = bit_length n - 53;
                q = n div 2 ^ e;
                r = n mod 2 ^ e;
                half = 2 ^ (e - 1)
            in (if r < half then q
                else if half < r then q + 1
                else if even q then q else q + 1) * 2 ^ e))"

definition js_add :: "nat \<Rightarrow> nat \<Rightarrow> nat" where
  "js_add a b = round_to_double (a + b)"


text \<open>
  \<open>Math.floor((i / whole) * 100)\<close> for integers, the percentage the handlers with a loop
  report as \<open>progress\<close>. (\<open>tick\<close>, whose \<open>steps\<close> is any number, writes the same
  expression out.)
\<close>

definition percent :: "(real \<Rightarrow> jsnum) \<Rightarrow> int \<Rightarrow> int \<Rightarrow> jsnum" where
  "percent rnd i whole =
     jfloor (jmul rnd (jdiv rnd (Fin (of_int i)) (Fin (of_int whole))) (Fin 100))"

text \<open>
  \<open>Number(value.toFixed(4))\<close>: \<open>toFixed\<close> writes the multiple of \<open>10^-4\<close> nearest to
  the number (the one of larger magnitude on a tie), or the number itself when its
  magnitude is at least \<open>10^21\<close> or it is not finite, and \<open>Number\<close> reads that decimal
  back as a double.
\<close>

definition toFixed4 :: "(real \<Rightarrow> jsnum) \<Rightarrow> jsnum \<Rightarrow> jsnum" where
  "toFixed4 rnd v =
     (case v of
        Fin x \<Rightarrow> if 10 ^ 21 \<le> \<bar>x\<bar> then Fin x
                 else rnd (sgn x * of_int \<lfloor>\<bar>x\<bar> * 10 ^ 4 + 1 / 2\<rfloor> / 10 ^ 4)
      | _ \<Rightarrow> v)"

text \<open>
  A request id is a string or absent. The listener labels its error responses with
  \<open>id || 'unknown'\<close>: the absent id and the empty string are falsy and give the fallback.
\<close>

type_synonym ident = "string option"

definition id_or_unknown :: "ident \<Rightarrow> ident" where
  "id_or_unknown i =
     (case i of None \<Rightarrow> Some ''unknown''
      | Some s \<Rightarrow> if s = [] then Some ''unknown'' else Some s)"

subsection \<open>Requests and responses\<close>

text \<open>
  The exceptions of the script: the five errors it constructs itself, each with a fixed
  message (the unknown command and the unsupported operation are quoted in theirs), and the
  \<open>TypeError\<close> JavaScript raises when a property of \<open>undefined\<close> is read.
\<close>

datatype js_error =
    UnknownCommand "string option"
  | UnsupportedOperation "string option"
  | FibRange
  | PrimeRange
  | NotAnArray
  | TypeError

text \<open>
  The messages. A progress message carries the handler's counters: \<open>processed\<close> and
  \<open>total\<close>; \<open>currentStep\<close> and \<open>totalSteps\<close>; \<open>current\<close> and \<open>total\<close>; \<open>current\<close>,
  \<open>total\<close> and \<open>primesFound\<close>. A success message carries the result and the handler's
  other fields: \<open>operation\<close>; \<open>originalLength\<close>; \<open>totalDuration\<close>; \<open>length\<close> and
  \<open>nthValue\<close>; \<open>count\<close> and \<open>limit\<close>; \<open>algorithm\<close> and \<open>originalLength\<close>. The
  status \<open>error\<close> is the constructor \<open>Failure\<close>.
\<close>

datatype progress_detail =
    ProcessProgress nat nat
  | WorkProgress nat jsval
  | FibProgress nat int
  | PrimeProgress nat int nat

datatype 'a success_detail =
    CalculateDone jsnum string
  | ProcessDataDone "jsnum list" nat
  | SimulateWorkDone jsnum
  | FibonacciDone "nat list" nat nat
  | PrimeNumbersDone "nat list" nat int
  | SortArrayDone "'a list" string nat

datatype 'a message =
    Ready ident "string list"
  | Progress ident jsnum progress_detail
  | Success ident "'a success_detail"
  | Failure ident js_error

text \<open>
  The \<open>data\<close> object of a request, with every field a handler reads. The field \<open>array\<close>
  is a reference to an array of the store (see \<open>handleSortArray\<close>); \<open>None\<close> there stands
  for any value that is not an array. A request is the \<open>e.data\<close> of a message event.
\<close>

record payload =
  data_operation :: "string option"
  data_numbers :: "jsnum list option"
  data_dataset :: "jsnum list option"
  data_transform :: "string option"
  data_duration :: "jsnum option"
  data_steps :: "jsval option"
  data_n :: "int option"
  data_limit :: "int option"
  data_array :: "nat option"
  data_algorithm :: "string option"

record request =
  req_command :: "string option"
  req_data :: "payload option"
  req_id :: ident

text \<open>
  What one call of a handler does: the messages it posts and the exception it throws.
\<close>

type_synonym 'a outcome = "'a message list \<times> js_error option"

subsection \<open>handleCalculate\<close>

text \<open>
  Lines 58-95. Destructuring an absent \<open>data\<close> throws; an unsupported operation reaches
  the \<open>default\<close> branch of the \<open>switch\<close>; \<open>numbers.reduce\<close> and the spread of
  \<open>numbers\<close> throw when \<open>numbers\<close> is absent. \<open>reduce\<close> with an initial value is
  \<open>foldl\<close>.
\<close>

definition handleCalculate ::
  "(real \<Rightarrow> jsnum) \<Rightarrow> payload option \<Rightarrow> ident \<Rightarrow> 'a outcome" where
  "handleCalculate rnd data ident =
     (case data of
        None \<Rightarrow> ([], Some TypeError)
      | Some d \<Rightarrow>
          (let operation = data_operation d; numbers = data_numbers d in
           if operation \<notin> {Some ''sum'', Some ''average'', Some ''max'', Some ''min'',
                              Some ''multiply''}
           then ([], Some (UnsupportedOperation operation))
           else (case numbers of
                   None \<Rightarrow> ([], Some TypeError)
                 | Some ns \<Rightarrow>
                     (let result =
                        (if operation = Some ''sum'' then foldl (jadd rnd) (Fin 0) ns
                         else if operation = Some ''average''
                           then jdiv rnd (foldl (jadd rnd) (Fin 0) ns) (Fin (of_nat (length ns)))
                         else if operation = Some ''max'' then foldl jmax NegInf ns
                         else if operation = Some ''min'' then foldl jmin PosInf ns
                         else foldl (jmul rnd) (Fin 1) ns)
                      in ([Success ident (CalculateDone result (the operation))], None)))))"

subsection \<open>handleProcessData\<close>

text \<open>
  Lines 100-144. \<open>transform_value\<close> is the chain of \<open>if\<close> statements on \<open>transform\<close>,
  \<open>process_step\<close> the body of the loop over the indices of \<open>dataset\<close>: it pushes the
  rounded value and, every \<open>Math.floor(dataset.length / 10)\<close> indices of a dataset of more
  than ten elements, posts a progress message.
\<close>

definition transform_value ::
  "(real \<Rightarrow> jsnum) \<Rightarrow> (real \<Rightarrow> jsnum) \<Rightarrow> string option \<Rightarrow> jsnum list \<Rightarrow> jsnum
     \<Rightarrow> jsnum" where
  "transform_value rnd msqrt transform dataset v =
     (if transform = Some ''double'' then jmul rnd v (Fin 2)
      else if transform = Some ''square'' then jmul rnd v v
      else if transform = Some ''sqrt'' then jsqrt msqrt (jabs v)
      else if transform = Some ''normalize'' then
        (let mx = foldl jmax NegInf (map jabs dataset)
         in if mx \<noteq> Fin 0 then jdiv rnd v mx else Fin 0)
      else v)"

definition process_step ::
  "(real \<Rightarrow> jsnum) \<Rightarrow> (real \<Rightarrow> jsnum) \<Rightarrow> ident \<Rightarrow> string option \<Rightarrow> jsnum list \<Rightarrow> nat
     \<Rightarrow> jsnum list \<times> 'a message list \<Rightarrow> jsnum list \<times> 'a message list" where
  "process_step rnd msqrt ident transform dataset i st =
     (case st of (processed, msgs) \<Rightarrow>
        (processed @ [toFixed4 rnd (transform_value rnd msqrt transform dataset (dataset ! i))],
         if length dataset > 10 \<and> i mod (length dataset div 10) = 0
         then msgs @ [Progress ident (percent rnd (int i) (int (length dataset)))
                        (ProcessProgress (i + 1) (length dataset))]
         else msgs))"

definition handleProcessData ::
  "(real \<Rightarrow> jsnum) \<Rightarrow> (real \<Rightarrow> jsnum) \<Rightarrow> payload option \<Rightarrow> ident \<Rightarrow> 'a outcome" where
  "handleProcessData rnd msqrt data ident =
     (case data of
        None \<Rightarrow> ([], Some TypeError)
      | Some d \<Rightarrow>
          (case data_dataset d of
             None \<Rightarrow> ([], Some TypeError)
           | Some dataset \<Rightarrow>
               (case fold (process_step rnd msqrt ident (data_transform d) dataset)
                       [0..<length dataset] ([], []) of
                  (processed, msgs) \<Rightarrow>
                    (msgs @ [Success ident (ProcessDataDone processed (length dataset))], None))))"

subsection \<open>handleSimulateWork\<close>

text \<open>
  Lines 149-186. \<open>handleSimulateWork\<close> posts nothing itself: it starts an interval timer
  whose callback is \<open>tick\<close>. The record holds the variables the callback closes over.
  \<open>steps\<close> is not validated: it is whatever number the request carries, 100 when the
  request carries none. \<open>currentStep\<close> is a double that holds a natural number, and
  \<open>currentStep++\<close> adds 1 to it in double precision: the sum is exact up to \<open>2^53\<close>, and
  \<open>2^53 + 1\<close> is rounded back to \<open>2^53\<close>. A tick increments \<open>currentStep\<close>, posts a
  progress message with \<open>Math.floor((currentStep / steps) * 100)\<close> and, when
  \<open>currentStep >= steps\<close>, clears the timer and posts the success message. Nothing else
  clears the timer: when the test never holds the timer fires for ever.
\<close>

record sim_timer =
  timer_id :: ident
  timer_steps :: jsval
  timer_duration :: jsnum
  currentStep :: nat

definition handleSimulateWork :: "payload option \<Rightarrow> ident \<Rightarrow> js_error + sim_timer" where
  "handleSimulateWork data ident =
     (case data of
        None \<Rightarrow> Inl TypeError
      | Some d \<Rightarrow>
          Inr \<lparr> timer_id = ident,
                timer_steps = (case data_steps d of None \<Rightarrow> Number (Fin 100) | Some s \<Rightarrow> s),
                timer_duration = (case data_duration d of None \<Rightarrow> Fin 3000 | Some t \<Rightarrow> t),
                currentStep = 0 \<rparr>)"

definition tick :: "(real \<Rightarrow> jsnum) \<Rightarrow> sim_timer \<Rightarrow> 'a message list \<times> sim_timer option" where
  "tick rnd t =
     (let step = js_add (currentStep t) 1;
          progress = jfloor (jmul rnd (jdiv_val rnd (Fin (real step)) (timer_steps t)) (Fin 100));
          msgs = [Progress (timer_id t) progress (WorkProgress step (timer_steps t))]
      in if jle (num_of (timer_steps t)) (Fin (real step))
         then (msgs @ [Success (timer_id t) (SimulateWorkDone (timer_duration t))], None)
         else (msgs, Some (t\<lparr>currentStep := step\<rparr>)))"

subsection \<open>handleFibonacci\<close>

text \<open>
  Lines 191-234. The inner function \<open>fib\<close> adds natural numbers as doubles, with
  \<open>js_add\<close>. (The sums of \<open>fib\<close> stay far below \<open>2^1024\<close>, where doubles end.)
\<close>

text \<open>
  \<open>fib\<close> returns \<open>num\<close> if \<open>num <= 1\<close> and otherwise runs
  \<open>[a, b] = [b, a + b]\<close> for \<open>i\<close> from 2 to \<open>num\<close> and returns \<open>b\<close>.
\<close>

definition fib :: "nat \<Rightarrow> nat" where
  "fib num =
     (if num \<le> 1 then num
      else snd (fold (\<lambda>i (a, b). (b, js_add a b)) [2..<num + 1] (0, 1)))"

text \<open>
  The body of the loop of \<open>handleFibonacci\<close> over \<open>i\<close> from 0 to \<open>n\<close>, and the handler:
  the bounds of \<open>n\<close> are checked before anything is computed, and the success message
  reads \<open>sequence.length\<close> and \<open>sequence[n]\<close>.
\<close>

definition fib_step ::
  "(real \<Rightarrow> jsnum) \<Rightarrow> ident \<Rightarrow> int \<Rightarrow> nat \<Rightarrow> nat list \<times> 'a message list
     \<Rightarrow> nat list \<times> 'a message list" where
  "fib_step rnd ident n i st =
     (case st of (sequence, msgs) \<Rightarrow>
        (sequence @ [fib i],
         if n > 10 \<and> int i mod (n div 10) = 0
         then msgs @ [Progress ident (percent rnd (int i) n) (FibProgress i n)]
         else msgs))"

definition handleFibonacci ::
  "(real \<Rightarrow> jsnum) \<Rightarrow> payload option \<Rightarrow> ident \<Rightarrow> 'a outcome" where
  "handleFibonacci rnd data ident =
     (case data of
        None \<Rightarrow> ([], Some TypeError)
      | Some d \<Rightarrow>
          (let n = (case data_n d of None \<Rightarrow> 20 | Some v \<Rightarrow> v) in
           if n < 0 \<or> n > 1000 then ([], Some FibRange)
           else (case fold (fib_step rnd ident n) [0..<nat n + 1] ([], []) of
                   (sequence, msgs) \<Rightarrow>
                     (msgs @ [Success ident
                                (FibonacciDone sequence (length sequence) (sequence ! nat n))],
                      None))))"

subsection \<open>handlePrimeNumbers\<close>

text \<open>
  Lines 239-282. \<open>mark_multiples\<close> is the inner loop
  \<open>for (let j = i * i; j <= limit; j += i) isPrime[j] = false\<close>. It is entered with
  \<open>i\<close> at least 2; the test \<open>0 < i\<close> is there for the recursion to be total and is true
  at every call.
\<close>

function mark_multiples :: "nat \<Rightarrow> nat \<Rightarrow> nat \<Rightarrow> bool list \<Rightarrow> bool list" where
  "mark_multiples i limit j isPrime =
     (if j \<le> limit \<and> 0 < i then mark_multiples i limit (j + i) (isPrime[j := False])
      else isPrime)"
  by pat_completeness auto
termination
  by (relation "measure (\<lambda>(i, limit, j, isPrime). limit + 1 - j)") auto

declare mark_multiples.simps [simp del]

text \<open>
  The body of the outer loop over \<open>i\<close> from 2 to \<open>limit\<close>, and the handler. The array
  \<open>isPrime\<close> has \<open>limit + 1\<close> elements, all true but the first two.
\<close>

definition sieve_step ::
  "(real \<Rightarrow> jsnum) \<Rightarrow> ident \<Rightarrow> nat \<Rightarrow> nat \<Rightarrow> bool list \<times> nat list \<times> 'a message list
     \<Rightarrow> bool list \<times> nat list \<times> 'a message list" where
  "sieve_step rnd ident limit i st =
     (case st of (isPrime, primes, msgs) \<Rightarrow>
        (let primes' = (if isPrime ! i then primes @ [i] else primes);
             isPrime' = (if isPrime ! i then mark_multiples i limit (i * i) isPrime else isPrime)
         in (isPrime', primes',
             if limit > 100 \<and> i mod (limit div 10) = 0
             then msgs @ [Progress ident (percent rnd (int i) (int limit))
                            (PrimeProgress i (int limit) (length primes'))]
             else msgs)))"

definition handlePrimeNumbers ::
  "(real \<Rightarrow> jsnum) \<Rightarrow> payload option \<Rightarrow> ident \<Rightarrow> 'a outcome" where
  "handlePrimeNumbers rnd data ident =
     (case data of
        None \<Rightarrow> ([], Some TypeError)
      | Some d \<Rightarrow>
          (let limit = (case data_limit d of None \<Rightarrow> 100 | Some v \<Rightarrow> v) in
           if limit < 2 \<or> limit > 100000 then ([], Some PrimeRange)
           else (case fold (sieve_step rnd ident (nat limit)) [2..<nat limit + 1]
                        ((replicate (nat limit + 1) True)[0 := False, 1 := False], [], []) of
                   (isPrime, primes, msgs) \<Rightarrow>
                     (msgs @ [Success ident (PrimeNumbersDone primes (length primes) limit)],
                      None))))"

subsection \<open>handleSortArray\<close>

text \<open>
  Lines 287-327. Arrays are objects: \<open>bubbleSort\<close> and the native \<open>sort\<close> write to the
  array they are given. The store is the list of the arrays that exist, an array reference
  is an index into it, and \<open>[...array]\<close> allocates a new array with the elements of the
  old one. \<open>quickSort\<close> and \<open>mergeSort\<close> only read their argument; the arrays they build
  are not referred to by anything else and are kept as values. The native
  \<open>sort((a, b) => a - b)\<close> depends on the engine: the order in which it leaves the
  elements is not fixed by the language when the comparator is inconsistent, as it is when
  an element is NaN. The function \<open>nsort\<close> gives the new contents of the array it sorts from
  the old.
\<close>

type_synonym 'a heap = "'a list list"

definition copy_array :: "'a heap \<Rightarrow> nat \<Rightarrow> 'a heap \<times> nat" where
  "copy_array heap a = (heap @ [heap ! a], length heap)"

definition bubbleSort_at ::
  "('a \<Rightarrow> 'k::linorder option) \<Rightarrow> nat \<Rightarrow> 'a heap \<Rightarrow> 'a heap" where
  "bubbleSort_at num a heap = heap[a := bubbleSort num (heap ! a)]"

definition native_sort_at :: "('a list \<Rightarrow> 'a list) \<Rightarrow> nat \<Rightarrow> 'a heap \<Rightarrow> 'a heap" where
  "native_sort_at nsort a heap = heap[a := nsort (heap ! a)]"

definition handleSortArray ::
  "('a \<Rightarrow> 'k::linorder option) \<Rightarrow> ('a list \<Rightarrow> 'a list) \<Rightarrow> 'a heap \<Rightarrow> payload option \<Rightarrow> ident
     \<Rightarrow> 'a heap \<times> 'a outcome" where
  "handleSortArray num nsort heap data ident =
     (case data of
        None \<Rightarrow> (heap, [], Some TypeError)
      | Some d \<Rightarrow>
          (case data_array d of
             None \<Rightarrow> (heap, [], Some NotAnArray)
           | Some array \<Rightarrow>
               (let algorithm = (case data_algorithm d of None \<Rightarrow> ''quick'' | Some s \<Rightarrow> s);
                    (heap1, c) = copy_array heap array;
                    (heap2, sortedArray) =
                      (if algorithm = ''quick'' then (heap1, quickSort num (heap1 ! c))
                       else if algorithm = ''merge'' then (heap1, mergeSort num (heap1 ! c))
                       else if algorithm = ''bubble''
                         then (let h = bubbleSort_at num c heap1 in (h, h ! c))
                       else (let h = native_sort_at nsort c heap1 in (h, h ! c)))
                in (heap2,
                    [Success ident (SortArrayDone sortedArray algorithm (length (heap2 ! array)))],
                    None))))"

subsection \<open>The message listener\<close>

text \<open>
  Lines 7-53. \<open>dispatch\<close> is the \<open>switch\<close> on \<open>command\<close>; \<open>on_message\<close> is the
  listener with its \<open>try\<close> and \<open>catch\<close>: an exception thrown by a handler becomes one
  error message. It returns the store, the messages posted and the timer started, if any.
\<close>

definition supportedCommands :: "string list" where
  "supportedCommands =
     [''calculate'', ''processData'', ''simulateWork'', ''fibonacci'', ''primeNumbers'',
      ''sortArray'']"

definition dispatch ::
  "(real \<Rightarrow> jsnum) \<Rightarrow> (real \<Rightarrow> jsnum) \<Rightarrow> ('a \<Rightarrow> 'k::linorder option)
     \<Rightarrow> ('a list \<Rightarrow> 'a list) \<Rightarrow> 'a heap \<Rightarrow> request
     \<Rightarrow> 'a heap \<times> 'a outcome \<times> sim_timer option" where
  "dispatch rnd msqrt num nsort heap req =
     (let command = req_command req; data = req_data req; ident = req_id req in
      if command = Some ''calculate'' then (heap, handleCalculate rnd data ident, None)
      else if command = Some ''processData''
        then (heap, handleProcessData rnd msqrt data ident, None)
      else if command = Some ''simulateWork'' then
        (case handleSimulateWork data ident of
           Inl e \<Rightarrow> (heap, ([], Some e), None)
         | Inr t \<Rightarrow> (heap, ([], None), Some t))
      else if command = Some ''fibonacci'' then (heap, handleFibonacci rnd data ident, None)
      else if command = Some ''primeNumbers''
        then (heap, handlePrimeNumbers rnd data ident, None)
      else if command = Some ''sortArray'' then
        (case handleSortArray num nsort heap data ident of (heap', out) \<Rightarrow> (heap', out, None))
      else (heap,
            ([Failure (id_or_unknown ident) (UnknownCommand command)], None),
            None))"

definition on_message ::
  "(real \<Rightarrow> jsnum) \<Rightarrow> (real \<Rightarrow> jsnum) \<Rightarrow> ('a \<Rightarrow> 'k::linorder option)
     \<Rightarrow> ('a list \<Rightarrow> 'a list) \<Rightarrow> 'a heap \<Rightarrow> request
     \<Rightarrow> 'a heap \<times> 'a message list \<times> sim_timer option" where
  "on_message rnd msqrt num nsort heap req =
     (case dispatch rnd msqrt num nsort heap req of
        (heap', (msgs, thrown), timer) \<Rightarrow>
          (heap',
           (case thrown of
              None \<Rightarrow> msgs
            | Some e \<Rightarrow> msgs @ [Failure (id_or_unknown (req_id req)) e]),
           timer))"

definition empty_payload :: payload where
  "empty_payload = \<lparr> data_operation = None, data_numbers = None, data_dataset = None,
     data_transform = None, data_duration = None, data_steps = None, data_n = None,
     data_limit = None, data_array = None, data_algorithm = None \<rparr>"


subsection \<open>Startup and the event loop\<close>

text \<open>
  Lines 392-399: the last statement of the script posts the ready message, after the
  listener is registered and before any event is handled. The worker then handles events
  one at a time: a request, or the firing of one of the interval timers it has started
  (a timer that has been cleared does nothing). \<open>worker_trace\<close> is everything the worker
  posts from its start for a given sequence of events.
\<close>

definition startup :: "'a message list" where
  "startup = [Ready (Some ''init'') supportedCommands]"

record 'a worker =
  w_heap :: "'a heap"
  w_timers :: "sim_timer option list"

datatype event = Deliver request | Fire nat

definition step ::
  "(real \<Rightarrow> jsnum) \<Rightarrow> (real \<Rightarrow> jsnum) \<Rightarrow> ('a \<Rightarrow> 'k::linorder option)
     \<Rightarrow> ('a list \<Rightarrow> 'a list) \<Rightarrow> 'a worker \<Rightarrow> event
     \<Rightarrow> 'a worker \<times> 'a message list" where
  "step rnd msqrt num nsort w ev =
     (case ev of
        Deliver req \<Rightarrow>
          (case on_message rnd msqrt num nsort (w_heap w) req of
             (heap', msgs, timer) \<Rightarrow>
               (\<lparr> w_heap = heap',
                   w_timers = (case timer of None \<Rightarrow> w_timers w
                               | Some t \<Rightarrow> w_timers w @ [Some t]) \<rparr>,
                msgs))
      | Fire k \<Rightarrow>
          (if k < length (w_timers w) then
             (case w_timers w ! k of
                None \<Rightarrow> (w, [])
              | Some t \<Rightarrow>
                  (case tick rnd t of
                     (msgs, t') \<Rightarrow> (w\<lparr> w_timers := (w_timers w)[k := t'] \<rparr>, msgs)))
           else (w, [])))"

fun run ::
  "(real \<Rightarrow> jsnum) \<Rightarrow> (real \<Rightarrow> jsnum) \<Rightarrow> ('a \<Rightarrow> 'k::linorder option)
     \<Rightarrow> ('a list \<Rightarrow> 'a list) \<Rightarrow> 'a worker \<Rightarrow> event list
     \<Rightarrow> 'a message list" where
  "run rnd msqrt num nsort w [] = []"
| "run rnd msqrt num nsort w (ev # evs) =
     (case step rnd msqrt num nsort w ev of (w', msgs) \<Rightarrow> msgs @ run rnd msqrt num nsort w' evs)"

definition worker_trace ::
  "(real \<Rightarrow> jsnum) \<Rightarrow> (real \<Rightarrow> jsnum) \<Rightarrow> ('a \<Rightarrow> 'k::linorder option)
     \<Rightarrow> ('a list \<Rightarrow> 'a list) \<Rightarrow> 'a heap \<Rightarrow> event list
     \<Rightarrow> 'a message list" where
  "worker_trace rnd msqrt num nsort heap evs =
     startup @ run rnd msqrt num nsort \<lparr> w_heap = heap, w_timers = [] \<rparr> evs"

text \<open>
  Everything one request has made the worker post by the time the timer it has started, if
  any, has fired \<open>k\<close> times: the request is delivered to a worker without timers, so that
  its timer is number 0. (The ticks run between other events; their messages are in this
  order all the same.) The emissions of a request have come to an end when they are the
  same for every larger \<open>k\<close>.
\<close>

definition request_emissions ::
  "(real \<Rightarrow> jsnum) \<Rightarrow> (real \<Rightarrow> jsnum) \<Rightarrow> ('a \<Rightarrow> 'k::linorder option)
     \<Rightarrow> ('a list \<Rightarrow> 'a list) \<Rightarrow> 'a heap \<Rightarrow> request \<Rightarrow> nat \<Rightarrow> 'a message list" where
  "request_emissions rnd msqrt num nsort heap req k =
     run rnd msqrt num nsort \<lparr> w_heap = heap, w_timers = [] \<rparr>
       (Deliver req # replicate k (Fire 0))"

subsection \<open>Observations on messages\<close>

text \<open>
  The vocabulary of the claims: the status, the id and the progress value of a message.
\<close>

fun is_ready :: "'a message \<Rightarrow> bool" where
  "is_ready (Ready _ _) = True"
| "is_ready _ = False"

fun is_progress :: "'a message \<Rightarrow> bool" where
  "is_progress (Progress _ _ _) = True"
| "is_progress _ = False"



fun message_id :: "'a message \<Rightarrow> ident" where
  "message_id (Ready i _) = i"
| "message_id (Progress i _ _) = i"
| "message_id (Success i _) = i"
| "message_id (Failure i _) = i"

fun progress_value :: "'a message \<Rightarrow> jsnum" where
  "progress_value (Progress _ p _) = p"
| "progress_value _ = NaN"






text \<open>
  The Fibonacci numbers and the prime numbers, as the claims about \<open>handleFibonacci\<close> and
  \<open>handlePrimeNumbers\<close> speak of them.
\<close>

fun fibonacci :: "nat \<Rightarrow> nat" where
  "fibonacci 0 = 0"
| "fibonacci (Suc 0) = 1"
| "fibonacci (Suc (Suc n)) = fibonacci (Suc n) + fibonacci n"

definition is_prime :: "nat \<Rightarrow> bool" where
  "is_prime p \<longleftrightarrow> 1 < p \<and> (\<forall>d\<in>{2..<p}. \<not> d dvd p)"

section \<open>Invariants used in the proofs\<close>



definition progress_at ::
  "ident \<Rightarrow> (real \<Rightarrow> jsnum) \<Rightarrow> int \<Rightarrow> 'a message \<Rightarrow> nat \<Rightarrow> bool" where
  "progress_at ident rnd n m i \<longleftrightarrow> (\<exists>d. m = Progress ident (percent rnd (int i) n) d)"

definition handler_shape :: "(real \<Rightarrow> jsnum) \<Rightarrow> ident \<Rightarrow> 'a outcome \<Rightarrow> bool" where
  "handler_shape rnd ident out \<longleftrightarrow>
     (case out of
        (msgs, Some e) \<Rightarrow> msgs = []
      | (msgs, None) \<Rightarrow>
          (\<exists>ps d n is. msgs = ps @ [Success ident d]
             \<and> list_all2 (progress_at ident rnd n) ps is
             \<and> sorted is \<and> (\<forall>i\<in>set is. int i \<le> n) \<and> 0 < n))"

definition small_divisor :: "nat \<Rightarrow> nat \<Rightarrow> bool" where
  "small_divisor k m \<longleftrightarrow> (\<exists>d. 2 \<le> d \<and> d < k \<and> d dvd m \<and> d * d \<le> m)"

definition sieve_inv :: "nat \<Rightarrow> nat \<Rightarrow> bool list \<Rightarrow> nat list \<Rightarrow> bool" where
  "sieve_inv limit k s p \<longleftrightarrow>
     length s = limit + 1
     \<and> (\<forall>m\<le>limit. s ! m \<longleftrightarrow> (2 \<le> m \<and> \<not> small_divisor k m))
     \<and> p = filter is_prime [2..<k]"






subsection \<open>Comparisons of elements that are not NaN\<close>

lemma js_less_key:
  "num a = Some (key a) \<Longrightarrow> num b = Some (key b) \<Longrightarrow> js_less num a b \<longleftrightarrow> key a < key b"
  by (simp add: js_less_def)

lemma numeric_key: "\<forall>x\<in>set xs. num x \<noteq> None \<Longrightarrow> \<forall>x\<in>set xs. num x = Some (numeric num x)"
  by (auto simp: numeric_def)

subsection \<open>quickSort\<close>








subsection \<open>mergeSort\<close>

lemma mset_merge_loop:
  "mset (merge_loop num left right i j result)
     = mset result + mset (drop i left) + mset (drop j right)"
proof (induction num left right i j result rule: merge_loop.induct)
  case (1 num left right i j result)
  show ?case
  proof (cases "i < length left \<and> j < length right")
    case False
    then show ?thesis by (auto simp: merge_loop.simps [of num left right i j])
  next
    case True
    then have dl: "drop i left = left ! i # drop (Suc i) left"
      and dr: "drop j right = right ! j # drop (Suc j) right"
      by (simp_all add: Cons_nth_drop_Suc)
    show ?thesis
    proof (cases "js_less num (left ! i) (right ! j)")
      case lt: True
      show ?thesis using "1.IH"(1) [OF True lt] True lt
        by (simp add: merge_loop.simps [of num left right i j] dl)
    next
      case ge: False
      show ?thesis using "1.IH"(2) [OF True ge] True ge
        by (simp add: merge_loop.simps [of num left right i j] dr)
    qed
  qed
qed

lemma mset_merge: "mset (merge num left right) = mset left + mset right"
  by (simp add: merge_def mset_merge_loop)

lemma sorted_merge_loop:
  fixes key :: "'a \<Rightarrow> 'k::linorder"
  shows "\<forall>x\<in>set left \<union> set right. num x = Some (key x) \<Longrightarrow>
   sorted (map key (drop i left)) \<Longrightarrow> sorted (map key (drop j right)) \<Longrightarrow>
   sorted (map key result) \<Longrightarrow>
   (\<forall>x\<in>set result. \<forall>y\<in>set (drop i left) \<union> set (drop j right). key x \<le> key y) \<Longrightarrow>
   sorted (map key (merge_loop num left right i j result))"
proof (induction num left right i j result rule: merge_loop.induct)
  case (1 num left right i j result)
  note nn = "1.prems"(1)
  show ?case
  proof (cases "i < length left \<and> j < length right")
    case False
    then have "drop i left = [] \<or> drop j right = []" by auto
    then show ?thesis using "1.prems"(2-) False
      by (auto simp: merge_loop.simps [of num left right i j] sorted_append)
  next
    case True
    then have dl: "drop i left = left ! i # drop (Suc i) left"
      and dr: "drop j right = right ! j # drop (Suc j) right"
      by (simp_all add: Cons_nth_drop_Suc)
    have cmp: "js_less num (left ! i) (right ! j) \<longleftrightarrow> key (left ! i) < key (right ! j)"
      using nn True by (intro js_less_key) simp_all
    show ?thesis
    proof (cases "js_less num (left ! i) (right ! j)")
      case lt: True
      then have klt: "key (left ! i) < key (right ! j)" using cmp by simp
      have "sorted (map key (merge_loop num left right (i + 1) j (result @ [left ! i])))"
      proof (rule "1.IH"(1) [OF True lt nn])
        show "sorted (map key (drop (i + 1) left))" using "1.prems"(2) by (simp add: dl)
        show "sorted (map key (drop j right))" by (rule "1.prems"(3))
        show "sorted (map key (result @ [left ! i]))"
          using "1.prems"(4,5) by (auto simp: sorted_append dl)
        show "\<forall>x\<in>set (result @ [left ! i]).
                \<forall>y\<in>set (drop (i + 1) left) \<union> set (drop j right). key x \<le> key y"
          using "1.prems"(2,3,5) klt by (auto simp: dl dr)
      qed
      then show ?thesis using True lt
        by (simp add: merge_loop.simps [of num left right i j])
    next
      case ge: False
      then have kge: "\<not> key (left ! i) < key (right ! j)" using cmp by simp
      have "sorted (map key (merge_loop num left right i (j + 1) (result @ [right ! j])))"
      proof (rule "1.IH"(2) [OF True ge nn])
        show "sorted (map key (drop i left))" by (rule "1.prems"(2))
        show "sorted (map key (drop (j + 1) right))" using "1.prems"(3) by (simp add: dr)
        show "sorted (map key (result @ [right ! j]))"
          using "1.prems"(4,5) by (auto simp: sorted_append dr)
        show "\<forall>x\<in>set (result @ [right ! j]).
                \<forall>y\<in>set (drop i left) \<union> set (drop (j + 1) right). key x \<le> key y"
          using "1.prems"(2,3,5) kge by (auto simp: dl dr)
      qed
      then show ?thesis using True ge
        by (simp add: merge_loop.simps [of num left right i j])
    qed
  qed
qed

lemma sorted_merge:
  fixes key :: "'a \<Rightarrow> 'k::linorder"
  shows "\<forall>x\<in>set left \<union> set right. num x = Some (key x) \<Longrightarrow>
   sorted (map key left) \<Longrightarrow> sorted (map key right) \<Longrightarrow>
   sorted (map key (merge num left right))"
  unfolding merge_def by (rule sorted_merge_loop) simp_all

lemma mergeSort_unfold:
  "\<not> length arr \<le> 1 \<Longrightarrow>
   mergeSort num arr = merge num (mergeSort num (take (length arr div 2) arr))
                                 (mergeSort num (drop (length arr div 2) arr))"
  by (subst mergeSort.simps) (simp add: Let_def)

lemma mset_mergeSort: "mset (mergeSort num arr) = mset arr"
proof (induction arr rule: length_induct)
  case (1 arr)
  show ?case
  proof (cases "length arr \<le> 1")
    case True
    then show ?thesis by (simp add: mergeSort.simps)
  next
    case False
    have "mset (mergeSort num arr)
          = mset (take (length arr div 2) arr) + mset (drop (length arr div 2) arr)"
      using "1.IH" False
      by (simp add: mergeSort_unfold [OF False] mset_merge)
    also have "\<dots> = mset (take (length arr div 2) arr @ drop (length arr div 2) arr)"
      by (simp del: append_take_drop_id)
    finally show ?thesis by simp
  qed
qed

lemma set_mergeSort: "set (mergeSort num arr) = set arr"
  by (metis mset_mergeSort set_mset_mset)

lemma sorted_mergeSort:
  fixes key :: "'a \<Rightarrow> 'k::linorder"
  shows "\<forall>x\<in>set arr. num x = Some (key x) \<Longrightarrow> sorted (map key (mergeSort num arr))"
proof (induction arr rule: length_induct)
  case (1 arr)
  note nn = "1.prems"
  show ?case
  proof (cases "length arr \<le> 1")
    case True
    then have "length (map key arr) \<le> 1" by simp
    then have "sorted (map key arr)" by (rule sorted01)
    with True show ?thesis by (simp add: mergeSort.simps)
  next
    case False
    let ?mid = "length arr div 2"
    have t: "\<forall>x\<in>set (take ?mid arr). num x = Some (key x)"
      using nn by (auto dest: in_set_takeD)
    have d: "\<forall>x\<in>set (drop ?mid arr). num x = Some (key x)"
      using nn by (auto dest: in_set_dropD)
    have l: "sorted (map key (mergeSort num (take ?mid arr)))"
      using "1.IH" False t by simp
    have r: "sorted (map key (mergeSort num (drop ?mid arr)))"
      using "1.IH" False d by simp
    have "sorted (map key (merge num (mergeSort num (take ?mid arr))
                                     (mergeSort num (drop ?mid arr))))"
      using t d by (intro sorted_merge l r) (auto simp: set_mergeSort)
    then show ?thesis by (simp only: mergeSort_unfold [OF False])
  qed
qed


subsection \<open>bubbleSort\<close>

lemma length_swap_step [simp]: "length (swap_step num j arr) = length arr"
  by (simp add: swap_step_def)












subsection \<open>Sorted permutations and the reference sort\<close>




subsection \<open>Ties in merge\<close>

lemma merge_loop_prefix: "\<exists>t. merge_loop num left right i j result = result @ t"
proof (induction num left right i j result rule: merge_loop.induct)
  case (1 num left right i j result)
  show ?case
  proof (cases "i < length left \<and> j < length right")
    case False
    then show ?thesis by (auto simp: merge_loop.simps [of num left right i j])
  next
    case True
    show ?thesis
    proof (cases "js_less num (left ! i) (right ! j)")
      case lt: True
      show ?thesis using "1.IH"(1) [OF True lt] True lt
        by (auto simp: merge_loop.simps [of num left right i j])
    next
      case ge: False
      show ?thesis using "1.IH"(2) [OF True ge] True ge
        by (auto simp: merge_loop.simps [of num left right i j])
    qed
  qed
qed

lemma hd_merge:
  "hd (merge num (x # xs) (y # ys)) = (if js_less num x y then x else y)"
proof (cases "js_less num x y")
  case True
  obtain t where "merge_loop num (x # xs) (y # ys) (0 + 1) 0 ([] @ [x]) = ([] @ [x]) @ t"
    using merge_loop_prefix by blast
  then show ?thesis using True
    by (simp add: merge_def merge_loop.simps [of num "x # xs" "y # ys" 0 0])
next
  case False
  obtain t where "merge_loop num (x # xs) (y # ys) 0 (0 + 1) ([] @ [y]) = ([] @ [y]) @ t"
    using merge_loop_prefix by blast
  then show ?thesis using False
    by (simp add: merge_def merge_loop.simps [of num "x # xs" "y # ys" 0 0])
qed

lemma filter_key_above:
  fixes key :: "'a \<Rightarrow> 'k::linorder"
  assumes "sorted (map key zs)" "zs \<noteq> []" "k < key (hd zs)"
  shows "filter (\<lambda>a. key a = k) zs = []"
proof -
  obtain z zs' where zs: "zs = z # zs'" using assms(2) by (cases zs) auto
  have "\<forall>a\<in>set zs. k < key a" using assms(1,3) by (auto simp: zs)
  then show ?thesis by (auto simp: filter_empty_conv)
qed

lemma filter_merge_loop:
  fixes key :: "'a \<Rightarrow> 'k::linorder"
  shows "\<forall>x\<in>set left \<union> set right. num x = Some (key x) \<Longrightarrow>
   sorted (map key (drop i left)) \<Longrightarrow> sorted (map key (drop j right)) \<Longrightarrow>
   filter (\<lambda>a. key a = k) (merge_loop num left right i j result)
     = filter (\<lambda>a. key a = k) result @ filter (\<lambda>a. key a = k) (drop j right)
       @ filter (\<lambda>a. key a = k) (drop i left)"
proof (induction num left right i j result rule: merge_loop.induct)
  case (1 num left right i j result)
  note nn = "1.prems"(1)
  show ?case
  proof (cases "i < length left \<and> j < length right")
    case False
    then have "drop i left = [] \<or> drop j right = []" by auto
    then show ?thesis using False
      by (auto simp: merge_loop.simps [of num left right i j])
  next
    case True
    then have dl: "drop i left = left ! i # drop (Suc i) left"
      and dr: "drop j right = right ! j # drop (Suc j) right"
      by (simp_all add: Cons_nth_drop_Suc)
    have cmp: "js_less num (left ! i) (right ! j) \<longleftrightarrow> key (left ! i) < key (right ! j)"
      using nn True by (intro js_less_key) simp_all
    show ?thesis
    proof (cases "js_less num (left ! i) (right ! j)")
      case lt: True
      then have klt: "key (left ! i) < key (right ! j)" using cmp by simp
      have sl: "sorted (map key (drop (i + 1) left))" using "1.prems"(2) by (simp add: dl)
      have ih: "filter (\<lambda>a. key a = k) (merge_loop num left right (i + 1) j (result @ [left ! i]))
            = filter (\<lambda>a. key a = k) (result @ [left ! i])
              @ filter (\<lambda>a. key a = k) (drop j right)
              @ filter (\<lambda>a. key a = k) (drop (i + 1) left)"
        by (rule "1.IH"(1) [OF True lt nn sl "1.prems"(3)])
      have none: "filter (\<lambda>a. key a = k) (drop j right) = []" if "key (left ! i) = k"
      proof (rule filter_key_above [OF "1.prems"(3)])
        show "drop j right \<noteq> []" by (simp add: dr)
        show "k < key (hd (drop j right))" using klt that by (simp add: dr)
      qed
      show ?thesis
      proof (cases "key (left ! i) = k")
        case True
        then show ?thesis using ih none \<open>i < length left \<and> j < length right\<close> lt
          by (simp add: merge_loop.simps [of num left right i j] dl)
      next
        case False
        then show ?thesis using ih \<open>i < length left \<and> j < length right\<close> lt
          by (simp add: merge_loop.simps [of num left right i j] dl)
      qed
    next
      case ge: False
      have sr: "sorted (map key (drop (j + 1) right))" using "1.prems"(3) by (simp add: dr)
      have ih: "filter (\<lambda>a. key a = k) (merge_loop num left right i (j + 1) (result @ [right ! j]))
            = filter (\<lambda>a. key a = k) (result @ [right ! j])
              @ filter (\<lambda>a. key a = k) (drop (j + 1) right)
              @ filter (\<lambda>a. key a = k) (drop i left)"
        by (rule "1.IH"(2) [OF True ge nn "1.prems"(2) sr])
      show ?thesis using ih True ge
        by (simp add: merge_loop.simps [of num left right i j] dr)
    qed
  qed
qed

lemma filter_merge:
  fixes key :: "'a \<Rightarrow> 'k::linorder"
  shows "\<forall>x\<in>set left \<union> set right. num x = Some (key x) \<Longrightarrow>
   sorted (map key left) \<Longrightarrow> sorted (map key right) \<Longrightarrow>
   filter (\<lambda>a. key a = k) (merge num left right)
     = filter (\<lambda>a. key a = k) right @ filter (\<lambda>a. key a = k) left"
  using filter_merge_loop [of left right num key 0 0 k "[]"] by (simp add: merge_def)

lemma filter_mergeSort:
  fixes key :: "'a \<Rightarrow> 'k::linorder"
  shows "\<forall>x\<in>set arr. num x = Some (key x) \<Longrightarrow>
   filter (\<lambda>a. key a = k) (mergeSort num arr) = rev (filter (\<lambda>a. key a = k) arr)"
proof (induction arr rule: length_induct)
  case (1 arr)
  note nn = "1.prems"
  show ?case
  proof (cases "length arr \<le> 1")
    case True
    then have "length (filter (\<lambda>a. key a = k) arr) \<le> 1"
      using length_filter_le [of "\<lambda>a. key a = k" arr] by linarith
    then have "rev (filter (\<lambda>a. key a = k) arr) = filter (\<lambda>a. key a = k) arr"
      by (cases "filter (\<lambda>a. key a = k) arr") auto
    with True show ?thesis by (simp add: mergeSort.simps)
  next
    case False
    let ?mid = "length arr div 2"
    have t: "\<forall>x\<in>set (take ?mid arr). num x = Some (key x)"
      using nn by (auto dest: in_set_takeD)
    have d: "\<forall>x\<in>set (drop ?mid arr). num x = Some (key x)"
      using nn by (auto dest: in_set_dropD)
    have "filter (\<lambda>a. key a = k) (merge num (mergeSort num (take ?mid arr))
                                            (mergeSort num (drop ?mid arr)))
          = filter (\<lambda>a. key a = k) (mergeSort num (drop ?mid arr))
            @ filter (\<lambda>a. key a = k) (mergeSort num (take ?mid arr))"
      using t d by (intro filter_merge sorted_mergeSort) (auto simp: set_mergeSort)
    also have "\<dots> = rev (filter (\<lambda>a. key a = k) (drop ?mid arr))
                   @ rev (filter (\<lambda>a. key a = k) (take ?mid arr))"
      using "1.IH" False t d by simp
    also have "\<dots> = rev (filter (\<lambda>a. key a = k) (take ?mid arr @ drop ?mid arr))"
      by (simp del: append_take_drop_id)
    finally show ?thesis by (simp add: mergeSort_unfold [OF False])
  qed
qed

section \<open>Claims about the sorting functions\<close>

text \<open>
  For JavaScript numbers \<open>js_less val_key\<close> is the operator \<open><\<close>: it is \<open>jlt\<close> on the
  values of its operands.
\<close>

lemma js_less_val_key: "js_less val_key a b \<longleftrightarrow> jlt (num_of a) (num_of b)"
  by (cases "num_of a"; cases "num_of b") (simp_all add: js_less_def val_key_def)




text \<open>
  C3, as stated: on a tie the merge step takes the left half's element first, so
  \<open>mergeSort\<close> is stable. The code compares with a strict \<open><\<close> and takes the right
  element otherwise: two elements with the same numeric value come out in the opposite
  order, be they two objects of value 0 or the numbers 0 and -0. With a NaN in the input
  the result is not even sorted, and then elements of equal value may keep their order.
\<close>

theorem mergeSort_not_stable:
  "merge (\<lambda>p. Some (fst p)) [(0::int, ''a'')] [(0, ''b'')] = [(0, ''b''), (0, ''a'')]
   \<and> mergeSort (\<lambda>p. Some (fst p)) [(0::int, ''a''), (0, ''b'')] = [(0, ''b''), (0, ''a'')]
   \<and> mergeSort (\<lambda>p. Some (fst p)) [(0::int, ''a''), (0, ''b'')]
       \<noteq> sort_key fst [(0::int, ''a''), (0, ''b'')]
   \<and> mergeSort val_key [Number (Fin 0), MinusZero] = [MinusZero, Number (Fin 0)]
   \<and> mergeSort val_key
        [Number (Fin 0), Number (Fin 7), Number (Fin 8), Number (Fin 9),
         MinusZero, Number NaN, Number (Fin 5), Number (Fin 6)]
     = [Number (Fin 0), Number (Fin 5), Number (Fin 6), Number NaN,
        MinusZero, Number (Fin 7), Number (Fin 8), Number (Fin 9)]"
proof -
  have p: "merge (\<lambda>p. Some (fst p)) [(0::int, ''a'')] [(0, ''b'')] = [(0, ''b''), (0, ''a'')]"
    "mergeSort (\<lambda>p. Some (fst p)) [(0::int, ''a''), (0, ''b'')] = [(0, ''b''), (0, ''a'')]"
    by (simp_all add: mergeSort.simps merge_def merge_loop.simps js_less_def Let_def)
  have z: "mergeSort val_key [Number (Fin 0), MinusZero] = [MinusZero, Number (Fin 0)]"
    by (simp add: mergeSort.simps merge_def merge_loop.simps js_less_val_key Let_def)
  have n: "mergeSort val_key
        [Number (Fin 0), Number (Fin 7), Number (Fin 8), Number (Fin 9),
         MinusZero, Number NaN, Number (Fin 5), Number (Fin 6)]
     = [Number (Fin 0), Number (Fin 5), Number (Fin 6), Number NaN,
        MinusZero, Number (Fin 7), Number (Fin 8), Number (Fin 9)]"
    by (simp add: mergeSort.simps merge_def merge_loop.simps js_less_val_key Let_def)
  show ?thesis using p z n by simp
qed

text \<open>
  C3, amended: the merge step takes the left head only when it compares strictly smaller
  than the right head; otherwise, on a tie and when one of the two is NaN, the right
  half's element is taken first. \<open>mergeSort\<close> returns a permutation of its input. When no
  element of the input is NaN the result is sorted by numeric value, and the elements of
  any one numeric value appear in it in the reverse of their input order.
\<close>

theorem mergeSort_ties_take_right:
  fixes num :: "'a \<Rightarrow> 'k::linorder option"
  shows "hd (merge num (x # xs) (y # ys)) = (if js_less num x y then x else y)
       \<and> mset (mergeSort num arr) = mset arr
       \<and> ((\<forall>a\<in>set arr. num a \<noteq> None) \<longrightarrow>
            sorted (map (numeric num) (mergeSort num arr))
          \<and> (\<forall>k. filter (\<lambda>a. numeric num a = k) (mergeSort num arr)
                   = rev (filter (\<lambda>a. numeric num a = k) arr)))"
proof -
  have "sorted (map (numeric num) (mergeSort num arr))
      \<and> (\<forall>k. filter (\<lambda>a. numeric num a = k) (mergeSort num arr)
                   = rev (filter (\<lambda>a. numeric num a = k) arr))"
    if "\<forall>a\<in>set arr. num a \<noteq> None"
  proof -
    have nn: "\<forall>x\<in>set arr. num x = Some (numeric num x)"
      using that by (rule numeric_key)
    show ?thesis using nn by (simp add: sorted_mergeSort filter_mergeSort)
  qed
  then show ?thesis by (simp add: hd_merge mset_mergeSort)
qed

theorem mergeSort_ties_take_right_witness:
  "list_all (\<lambda>a. val_key a \<noteq> None) [Number (Fin 0), Number (Fin 1), MinusZero]
   \<and> hd (merge val_key [Number (Fin 0)] [MinusZero]) = MinusZero
   \<and> mergeSort val_key [Number (Fin 0), Number (Fin 1), MinusZero]
     = [MinusZero, Number (Fin 0), Number (Fin 1)]
   \<and> filter (\<lambda>a. numeric val_key a = (0, 0))
       (mergeSort val_key [Number (Fin 0), Number (Fin 1), MinusZero])
     = rev (filter (\<lambda>a. numeric val_key a = (0, 0)) [Number (Fin 0), Number (Fin 1), MinusZero])
   \<and> sorted (map (numeric val_key) (mergeSort val_key [Number (Fin 0), Number (Fin 1), MinusZero]))"
proof -
  let ?arr = "[Number (Fin 0), Number (Fin 1), MinusZero]"
  have h: "\<forall>a\<in>set ?arr. val_key a \<noteq> None" by (simp add: val_key_def)
  have e: "mergeSort val_key ?arr = [MinusZero, Number (Fin 0), Number (Fin 1)]"
    by (simp add: mergeSort.simps merge_def merge_loop.simps js_less_val_key Let_def)
  have t: "hd (merge val_key [Number (Fin 0)] [MinusZero])
             = (if js_less val_key (Number (Fin 0)) MinusZero then Number (Fin 0) else MinusZero)
      \<and> sorted (map (numeric val_key) (mergeSort val_key ?arr))
      \<and> (\<forall>k. filter (\<lambda>a. numeric val_key a = k) (mergeSort val_key ?arr)
               = rev (filter (\<lambda>a. numeric val_key a = k) ?arr))"
    using mergeSort_ties_take_right [of val_key "Number (Fin 0)" "[]" MinusZero "[]" ?arr] h
    by blast
  then have "hd (merge val_key [Number (Fin 0)] [MinusZero]) = MinusZero"
    by (simp add: js_less_val_key)
  then show ?thesis using h e t by (simp add: list_all_iff)
qed

section \<open>Progress percentages\<close>

lemma jle_Fin_iff: "jle (Fin a) y \<longleftrightarrow> (y = PosInf \<or> (\<exists>b. y = Fin b \<and> a \<le> b))"
  by (cases y) auto

lemma jle_iff_Fin: "jle x (Fin b) \<longleftrightarrow> (x = NegInf \<or> (\<exists>a. x = Fin a \<and> a \<le> b))"
  by (cases x) auto






section \<open>The handlers' loops\<close>

lemma process_fold:
  "fold (process_step rnd msqrt ident tr ds) [0..<k] ([], []) =
     (map (\<lambda>i. toFixed4 rnd (transform_value rnd msqrt tr ds (ds ! i))) [0..<k],
      map (\<lambda>i. Progress ident (percent rnd (int i) (int (length ds)))
                  (ProcessProgress (i + 1) (length ds)))
          (filter (\<lambda>i. length ds > 10 \<and> i mod (length ds div 10) = 0) [0..<k]))"
  by (induction k) (simp_all add: process_step_def)

lemma fib_fold:
  "fold (fib_step rnd ident n) [0..<k] ([], []) =
     (map fib [0..<k],
      map (\<lambda>i. Progress ident (percent rnd (int i) n) (FibProgress i n))
          (filter (\<lambda>i. n > 10 \<and> int i mod (n div 10) = 0) [0..<k]))"
  by (induction k) (simp_all add: fib_step_def)

lemma sieve_step_msgs:
  "snd (snd (sieve_step rnd ident limit k (s, p, ms))) =
     ms @ (if limit > 100 \<and> k mod (limit div 10) = 0
           then [Progress ident (percent rnd (int k) (int limit))
                   (PrimeProgress k (int limit) (length (if s ! k then p @ [k] else p)))]
           else [])"
  by (simp add: sieve_step_def Let_def)

lemma sieve_fold_msgs:
  "list_all2 (progress_at ident rnd (int limit))
     (snd (snd (fold (sieve_step rnd ident limit) [2..<k] (s0, p0, [] :: 'a message list))))
     (filter (\<lambda>i. limit > 100 \<and> i mod (limit div 10) = 0) [2..<k])"
proof (induction k)
  case 0
  then show ?case by simp
next
  case (Suc k)
  show ?case
  proof (cases "2 \<le> k")
    case False
    then show ?thesis by simp
  next
    case True
    let ?c = "\<lambda>i. limit > 100 \<and> i mod (limit div 10) = 0"
    obtain s p ms where st:
      "fold (sieve_step rnd ident limit) [2..<k] (s0, p0, [] :: 'a message list) = (s, p, ms)"
      by (rule prod_cases3)
    from Suc st have ih: "list_all2 (progress_at ident rnd (int limit)) ms (filter ?c [2..<k])"
      by simp
    have step: "fold (sieve_step rnd ident limit) [2..<Suc k] (s0, p0, [] :: 'a message list)
          = sieve_step rnd ident limit k (s, p, ms)"
      using True st by simp
    have filt: "filter ?c [2..<Suc k] = filter ?c [2..<k] @ (if ?c k then [k] else [])"
      using True by simp
    have last: "list_all2 (progress_at ident rnd (int limit))
        (if ?c k then [Progress ident (percent rnd (int k) (int limit))
                   (PrimeProgress k (int limit) (length (if s ! k then p @ [k] else p)))]
         else [])
        (if ?c k then [k] else [])"
      by (simp add: progress_at_def)
    show ?thesis
      unfolding step sieve_step_msgs filt
      by (rule list_all2_appendI [OF ih last])
  qed
qed


lemma progress_list_basic:
  "list_all2 (progress_at ident rnd n) msgs is \<Longrightarrow>
   list_all is_progress msgs \<and> list_all (\<lambda>m. message_id m = ident) msgs
   \<and> map progress_value msgs = map (\<lambda>i. percent rnd (int i) n) is"
  by (induction msgs "is" rule: list_all2_induct) (auto simp: progress_at_def)



lemma progress_at_map:
  "list_all2 (progress_at ident rnd n)
     (map (\<lambda>i. Progress ident (percent rnd (int i) n) (d i)) is) is"
  by (induction "is") (simp_all add: progress_at_def)


lemma handler_shapeI:
  "list_all2 (progress_at ident rnd n) ps is \<Longrightarrow> sorted is \<Longrightarrow> \<forall>i\<in>set is. int i \<le> n \<Longrightarrow>
   0 < n \<Longrightarrow> handler_shape rnd ident (ps @ [Success ident d], None)"
  unfolding handler_shape_def by (simp only: prod.case option.case) blast

lemma handler_shape_single: "handler_shape rnd ident ([Success ident d], None)"
  using handler_shapeI [of ident rnd 1 "[]" "[]" d] by simp

lemma handler_shape_thrown: "handler_shape rnd ident ([], Some e)"
  by (simp add: handler_shape_def)

lemma calculate_shape: "handler_shape rnd ident (handleCalculate rnd data ident)"
  by (simp add: handleCalculate_def Let_def handler_shape_single handler_shape_thrown
      split: option.splits)

lemma processData_shape: "handler_shape rnd ident (handleProcessData rnd msqrt data ident)"
proof (cases data)
  case None
  then show ?thesis by (simp add: handleProcessData_def handler_shape_thrown)
next
  case (Some d)
  show ?thesis
  proof (cases "data_dataset d")
    case None
    then show ?thesis using Some by (simp add: handleProcessData_def handler_shape_thrown)
  next
    case (Some ds)
    let ?is = "filter (\<lambda>i. length ds > 10 \<and> i mod (length ds div 10) = 0) [0..<length ds]"
    let ?ps = "map (\<lambda>i. Progress ident (percent rnd (int i) (int (length ds)))
                  (ProcessProgress (i + 1) (length ds))) ?is"
    have out: "handleProcessData rnd msqrt data ident =
       (?ps @ [Success ident (ProcessDataDone
            (map (\<lambda>i. toFixed4 rnd (transform_value rnd msqrt (data_transform d) ds (ds ! i)))
                 [0..<length ds]) (length ds))], None)"
      using Some \<open>data = Some d\<close> by (simp add: handleProcessData_def process_fold)
    show ?thesis
    proof (cases "length ds > 10")
      case True
      show ?thesis unfolding out
      proof (rule handler_shapeI)
        show "list_all2 (progress_at ident rnd (int (length ds))) ?ps ?is" by (rule progress_at_map)
        show "sorted ?is" by (simp add: sorted_wrt_filter)
        show "\<forall>i\<in>set ?is. int i \<le> int (length ds)" by simp
        show "0 < int (length ds)" using True by auto
      qed
    next
      case False
      then have "?ps = []" by simp
      then show ?thesis unfolding out by (simp add: handler_shape_single)
    qed
  qed
qed

lemma fibonacci_outcome:
  assumes "data = Some d" and "n = (case data_n d of None \<Rightarrow> 20 | Some v \<Rightarrow> v)"
    and "0 \<le> n" "n \<le> 1000"
  shows "handleFibonacci rnd data ident =
     (map (\<lambda>i. Progress ident (percent rnd (int i) n) (FibProgress i n))
          (filter (\<lambda>i. n > 10 \<and> int i mod (n div 10) = 0) [0..<nat n + 1])
      @ [Success ident (FibonacciDone (map fib [0..<nat n + 1]) (nat n + 1) (fib (nat n)))],
      None)"
proof -
  have "map fib [0..<nat n + 1] ! nat n = fib (nat n)"
    using nth_map_upt [of "nat n" "nat n + 1" 0 fib] by simp
  then show ?thesis
    using assms by (simp add: handleFibonacci_def Let_def fib_fold del: upt_Suc)
qed

lemma fibonacci_shape: "handler_shape rnd ident (handleFibonacci rnd data ident)"
proof (cases data)
  case None
  then show ?thesis by (simp add: handleFibonacci_def handler_shape_thrown)
next
  case (Some d)
  define n where "n = (case data_n d of None \<Rightarrow> 20 | Some v \<Rightarrow> v)"
  show ?thesis
  proof (cases "n < 0 \<or> n > 1000")
    case True
    then show ?thesis using Some n_def
      by (simp add: handleFibonacci_def Let_def handler_shape_thrown)
  next
    case False
    then have r: "0 \<le> n" "n \<le> 1000" by simp_all
    let ?is = "filter (\<lambda>i. n > 10 \<and> int i mod (n div 10) = 0) [0..<nat n + 1]"
    let ?ps = "map (\<lambda>i. Progress ident (percent rnd (int i) n) (FibProgress i n)) ?is"
    note out = fibonacci_outcome [OF Some n_def r, of rnd ident]
    show ?thesis
    proof (cases "n > 10")
      case True
      show ?thesis unfolding out
      proof (rule handler_shapeI)
        show "list_all2 (progress_at ident rnd n) ?ps ?is" by (rule progress_at_map)
        show "sorted ?is" by (simp add: sorted_wrt_filter del: upt_Suc)
        show "\<forall>i\<in>set ?is. int i \<le> n" using r by auto
        show "0 < n" using True by simp
      qed
    next
      case False
      then have "?ps = []" by simp
      then show ?thesis unfolding out by (simp add: handler_shape_single del: upt_Suc)
    qed
  qed
qed

section \<open>The sieve of handlePrimeNumbers\<close>

lemma mark_multiples_length [simp]: "length (mark_multiples i limit j a) = length a"
proof (induction i limit j a rule: mark_multiples.induct)
  case (1 i limit j a)
  then show ?case by (simp add: mark_multiples.simps [of i limit j a])
qed

lemma step_dvd:
  fixes i j m :: nat
  assumes "0 < i"
  shows "(m = j \<or> (j + i \<le> m \<and> i dvd (m - (j + i)))) \<longleftrightarrow> (j \<le> m \<and> i dvd (m - j))"
proof
  assume "m = j \<or> (j + i \<le> m \<and> i dvd (m - (j + i)))"
  then show "j \<le> m \<and> i dvd (m - j)"
  proof
    assume "m = j" then show ?thesis by simp
  next
    assume a: "j + i \<le> m \<and> i dvd (m - (j + i))"
    then have eq: "m - j = (m - (j + i)) + i" by simp
    have "i dvd (m - (j + i)) + i" using a by (simp only: dvd_add_triv_right_iff)
    then have "i dvd (m - j)" by (simp only: eq)
    then show ?thesis using a by simp
  qed
next
  assume b: "j \<le> m \<and> i dvd (m - j)"
  show "m = j \<or> (j + i \<le> m \<and> i dvd (m - (j + i)))"
  proof (cases "m = j")
    case True then show ?thesis by simp
  next
    case False
    then have pos: "0 < m - j" using b by simp
    then have "i \<le> m - j" using b by (simp add: dvd_imp_le)
    then have le: "j + i \<le> m" using b by linarith
    then have "m - j = (m - (j + i)) + i" by simp
    then have "i dvd (m - (j + i)) + i" using b by simp
    then have "i dvd (m - (j + i))" by (simp only: dvd_add_triv_right_iff)
    then show ?thesis using le by simp
  qed
qed

lemma mark_multiples_nth:
  "0 < i \<Longrightarrow> m < length a \<Longrightarrow>
   mark_multiples i limit j a ! m = (a ! m \<and> \<not> (j \<le> m \<and> m \<le> limit \<and> i dvd (m - j)))"
proof (induction i limit j a rule: mark_multiples.induct)
  case (1 i limit j a)
  show ?case
  proof (cases "j \<le> limit \<and> 0 < i")
    case False
    then show ?thesis using "1.prems" by (auto simp: mark_multiples.simps [of i limit j a])
  next
    case True
    have ih: "mark_multiples i limit (j + i) (a[j := False]) ! m =
      (a[j := False] ! m \<and> \<not> (j + i \<le> m \<and> m \<le> limit \<and> i dvd (m - (j + i))))"
      using "1.IH" [OF True] "1.prems" by simp
    have upd: "a[j := False] ! m = (a ! m \<and> m \<noteq> j)"
      using "1.prems" by (cases "m = j") simp_all
    have "mark_multiples i limit j a ! m =
      (a ! m \<and> \<not> (m = j \<or> (j + i \<le> m \<and> m \<le> limit \<and> i dvd (m - (j + i)))))"
      using True ih upd by (simp add: mark_multiples.simps [of i limit j a])
    also have "\<dots> = (a ! m \<and> \<not> (m \<le> limit \<and> (m = j \<or> (j + i \<le> m \<and> i dvd (m - (j + i))))))"
      using True by auto
    also have "\<dots> = (a ! m \<and> \<not> (m \<le> limit \<and> (j \<le> m \<and> i dvd (m - j))))"
      using step_dvd [of i m j] "1.prems"(1) by simp
    finally show ?thesis by auto
  qed
qed

lemma mark_squares_nth:
  assumes "0 < i" "m < length a"
  shows "mark_multiples i limit (i * i) a ! m = (a ! m \<and> \<not> (i * i \<le> m \<and> m \<le> limit \<and> i dvd m))"
proof -
  have "i dvd (m - i * i) \<longleftrightarrow> i dvd m" if "i * i \<le> m"
    using that by (metis dvd_minus_self dvd_triv_left le_imp_diff_is_add dvd_add_right_iff add.commute)
  then show ?thesis using mark_multiples_nth [OF assms, of limit "i * i"] by auto
qed


lemma composite_small_divisor:
  assumes k: "2 \<le> k" and np: "\<not> is_prime k"
  shows "small_divisor k k"
proof -
  from k np obtain d where d: "2 \<le> d" "d < k" "d dvd k"
    by (auto simp: is_prime_def)
  then obtain e where e: "k = d * e" by (auto simp: dvd_def)
  have e2: "2 \<le> e"
  proof (rule ccontr)
    assume "\<not> 2 \<le> e"
    then have "e = 0 \<or> e = 1" by auto
    then show False using e d k by auto
  qed
  have ek: "e < k" using e d e2 by simp
  show ?thesis
  proof (cases "d \<le> e")
    case True
    then have "d * d \<le> k" using e by simp
    then show ?thesis using d unfolding small_divisor_def by blast
  next
    case False
    then have "e * e \<le> k" using e by (simp add: mult.commute)
    moreover have "e dvd k" using e by simp
    ultimately show ?thesis using e2 ek unfolding small_divisor_def by blast
  qed
qed

lemma prime_iff_no_small_divisor:
  "2 \<le> k \<Longrightarrow> is_prime k \<longleftrightarrow> \<not> small_divisor k k"
proof
  assume "2 \<le> k" "is_prime k"
  then show "\<not> small_divisor k k" by (auto simp: is_prime_def small_divisor_def)
next
  assume "2 \<le> k" "\<not> small_divisor k k"
  then show "is_prime k" using composite_small_divisor by blast
qed

lemma small_divisor_Suc_prime:
  "small_divisor (Suc k) m \<longleftrightarrow> small_divisor k m \<or> (2 \<le> k \<and> k dvd m \<and> k * k \<le> m)"
  by (auto simp: small_divisor_def less_Suc_eq)

lemma small_divisor_Suc_composite:
  assumes k: "2 \<le> k" and np: "\<not> is_prime k"
  shows "small_divisor (Suc k) m \<longleftrightarrow> small_divisor k m"
proof -
  have "small_divisor k m" if km: "k dvd m" "k * k \<le> m"
  proof -
    from composite_small_divisor [OF k np] obtain d where
      d: "2 \<le> d" "d < k" "d dvd k" "d * d \<le> k" by (auto simp: small_divisor_def)
    have "k \<le> k * k" by simp
    then have "d * d \<le> m" using d(4) km(2) by linarith
    moreover have "d dvd m" using d(3) km(1) by (rule dvd_trans)
    ultimately show ?thesis using d(1,2) unfolding small_divisor_def by blast
  qed
  then show ?thesis by (auto simp: small_divisor_Suc_prime)
qed

lemma sieve_inv_init:
  "sieve_inv limit 2 ((replicate (limit + 1) True)[0 := False, 1 := False]) []"
proof -
  have "((replicate (limit + 1) True)[0 := False, 1 := False]) ! m = (2 \<le> m)" if "m \<le> limit" for m
    using that by (cases "m = 0"; cases "m = 1") (simp_all add: nth_list_update)
  moreover have "\<not> small_divisor 2 m" for m by (simp add: small_divisor_def)
  ultimately show ?thesis by (simp add: sieve_inv_def)
qed

lemma sieve_inv_step:
  assumes inv: "sieve_inv limit k s p" and k: "2 \<le> k" "k \<le> limit"
  shows "sieve_inv limit (Suc k)
           (if s ! k then mark_multiples k limit (k * k) s else s)
           (if s ! k then p @ [k] else p)"
proof -
  from inv have len: "length s = limit + 1"
    and s: "\<And>m. m \<le> limit \<Longrightarrow> s ! m \<longleftrightarrow> (2 \<le> m \<and> \<not> small_divisor k m)"
    and p: "p = filter is_prime [2..<k]"
    by (simp_all add: sieve_inv_def)
  have sk: "s ! k \<longleftrightarrow> is_prime k"
    using s [OF k(2)] k(1) prime_iff_no_small_divisor [OF k(1)] by simp
  have upt: "[2..<Suc k] = [2..<k] @ [k]" using k(1) by simp
  show ?thesis
  proof (cases "s ! k")
    case True
    then have pk: "is_prime k" using sk by simp
    have "mark_multiples k limit (k * k) s ! m \<longleftrightarrow> (2 \<le> m \<and> \<not> small_divisor (Suc k) m)"
      if m: "m \<le> limit" for m
    proof -
      have "mark_multiples k limit (k * k) s ! m
            = (s ! m \<and> \<not> (k * k \<le> m \<and> m \<le> limit \<and> k dvd m))"
        using k(1) m len by (intro mark_squares_nth) simp_all
      then show ?thesis using s [OF m] m k(1) by (auto simp: small_divisor_Suc_prime)
    qed
    then show ?thesis using True pk len p by (simp add: sieve_inv_def upt del: upt_Suc)
  next
    case False
    then have npk: "\<not> is_prime k" using sk by simp
    show ?thesis using False npk len p s
      by (simp add: sieve_inv_def upt small_divisor_Suc_composite [OF k(1) npk] del: upt_Suc)
  qed
qed

lemma sieve_fold_inv:
  "2 \<le> k \<Longrightarrow> k \<le> limit + 1 \<Longrightarrow>
   (case fold (sieve_step rnd ident limit) [2..<k]
           ((replicate (limit + 1) True)[0 := False, 1 := False], [], [] :: 'a message list) of
      (s, p, ms) \<Rightarrow> sieve_inv limit k s p)"
proof (induction k)
  case 0
  then show ?case by simp
next
  case (Suc k)
  show ?case
  proof (cases "k = 1")
    case True
    then show ?thesis using sieve_inv_init [of limit] by (simp add: numeral_2_eq_2)
  next
    case False
    then have k: "2 \<le> k" "k \<le> limit" using Suc.prems by simp_all
    obtain s p ms where st:
      "fold (sieve_step rnd ident limit) [2..<k]
         ((replicate (limit + 1) True)[0 := False, 1 := False], [], [] :: 'a message list)
       = (s, p, ms)"
      by (rule prod_cases3)
    from Suc.IH k st have inv: "sieve_inv limit k s p" by simp
    have step: "fold (sieve_step rnd ident limit) [2..<Suc k]
         ((replicate (limit + 1) True)[0 := False, 1 := False], [], [] :: 'a message list)
          = sieve_step rnd ident limit k (s, p, ms)"
      using k st by simp
    obtain ms' where "sieve_step rnd ident limit k (s, p, ms) =
       (if s ! k then mark_multiples k limit (k * k) s else s,
        if s ! k then p @ [k] else p, ms')"
      by (simp add: sieve_step_def Let_def)
    then show ?thesis
      unfolding step using sieve_inv_step [OF inv k] by simp
  qed
qed

lemma sieve_primes:
  assumes "fold (sieve_step rnd ident limit) [2..<limit + 1]
           ((replicate (limit + 1) True)[0 := False, 1 := False], [], [] :: 'a message list)
           = (s, p, ms)" and "2 \<le> limit"
  shows "p = filter is_prime [0..<limit + 1]"
proof -
  have "case fold (sieve_step rnd ident limit) [2..<limit + 1]
           ((replicate (limit + 1) True)[0 := False, 1 := False], [], [] :: 'a message list) of
          (s, p, ms) \<Rightarrow> sieve_inv limit (limit + 1) s p"
    using assms(2) by (intro sieve_fold_inv) simp_all
  then have "sieve_inv limit (limit + 1) s p"
    by (simp only: assms(1) prod.case)
  then have "p = filter is_prime [2..<limit + 1]" by (simp add: sieve_inv_def)
  moreover have "[0..<limit + 1] = [0, 1] @ [2..<limit + 1]"
  proof -
    have "[0..<limit + 1] = 0 # [Suc 0..<limit + 1]" by (rule upt_conv_Cons) simp
    also have "[Suc 0..<limit + 1] = Suc 0 # [Suc (Suc 0)..<limit + 1]"
      using assms(2) by (intro upt_conv_Cons) simp
    finally show ?thesis by (simp add: numeral_2_eq_2 del: upt_Suc)
  qed
  moreover have "\<not> is_prime 0" "\<not> is_prime 1" by (simp_all add: is_prime_def)
  ultimately show ?thesis by (simp del: upt_Suc)
qed


lemma primeNumbers_outcome:
  assumes d: "data = Some d" and l: "limit = (case data_limit d of None \<Rightarrow> 100 | Some v \<Rightarrow> v)"
    and r: "2 \<le> limit" "limit \<le> 100000"
  shows "\<exists>ps. handlePrimeNumbers rnd data ident =
           (ps @ [Success ident (PrimeNumbersDone (filter is_prime [0..<nat limit + 1])
                      (length (filter is_prime [0..<nat limit + 1])) limit)], None)
         \<and> list_all2 (progress_at ident rnd limit) ps
              (filter (\<lambda>i. nat limit > 100 \<and> i mod (nat limit div 10) = 0) [2..<nat limit + 1])"
proof -
  obtain s p ms where st:
    "fold (sieve_step rnd ident (nat limit)) [2..<nat limit + 1]
       ((replicate (nat limit + 1) True)[0 := False, 1 := False], [], [] :: 'a message list)
     = (s, p, ms)"
    by (rule prod_cases3)
  have p: "p = filter is_prime [0..<nat limit + 1]"
    using sieve_primes [OF st] r by simp
  have "list_all2 (progress_at ident rnd (int (nat limit)))
     (snd (snd (fold (sieve_step rnd ident (nat limit)) [2..<nat limit + 1]
        ((replicate (nat limit + 1) True)[0 := False, 1 := False], [], [] :: 'a message list))))
     (filter (\<lambda>i. nat limit > 100 \<and> i mod (nat limit div 10) = 0) [2..<nat limit + 1])"
    by (rule sieve_fold_msgs)
  then have "list_all2 (progress_at ident rnd (int (nat limit))) ms
     (filter (\<lambda>i. nat limit > 100 \<and> i mod (nat limit div 10) = 0) [2..<nat limit + 1])"
    unfolding st by (simp only: snd_conv)
  moreover have "int (nat limit) = limit" using r by simp
  ultimately have ms: "list_all2 (progress_at ident rnd limit) ms
     (filter (\<lambda>i. nat limit > 100 \<and> i mod (nat limit div 10) = 0) [2..<nat limit + 1])"
    by (simp only:)
  have "handlePrimeNumbers rnd data ident =
        (ms @ [Success ident (PrimeNumbersDone p (length p) limit)], None)"
    using d l r st by (simp add: handlePrimeNumbers_def Let_def del: upt_Suc)
  then show ?thesis using p ms by blast
qed

lemma primeNumbers_shape:
  "handler_shape rnd ident (handlePrimeNumbers rnd data ident :: 'a outcome)"
proof (cases data)
  case None
  then show ?thesis by (simp add: handlePrimeNumbers_def handler_shape_thrown)
next
  case (Some d)
  define limit where "limit = (case data_limit d of None \<Rightarrow> 100 | Some v \<Rightarrow> v)"
  show ?thesis
  proof (cases "limit < 2 \<or> limit > 100000")
    case True
    then show ?thesis using Some limit_def
      by (simp add: handlePrimeNumbers_def Let_def handler_shape_thrown)
  next
    case False
    then have r: "2 \<le> limit" "limit \<le> 100000" by simp_all
    from primeNumbers_outcome [OF Some limit_def r, of rnd ident]
    obtain ps :: "'a message list" where out: "handlePrimeNumbers rnd data ident =
           (ps @ [Success ident (PrimeNumbersDone (filter is_prime [0..<nat limit + 1])
                      (length (filter is_prime [0..<nat limit + 1])) limit)], None)"
      and ps: "list_all2 (progress_at ident rnd limit) ps
              (filter (\<lambda>i. nat limit > 100 \<and> i mod (nat limit div 10) = 0) [2..<nat limit + 1])"
      by (elim exE conjE)
    show ?thesis unfolding out
    proof (rule handler_shapeI [OF ps])
      show "sorted (filter (\<lambda>i. nat limit > 100 \<and> i mod (nat limit div 10) = 0) [2..<nat limit + 1])"
        by (simp add: sorted_wrt_filter del: upt_Suc)
      show "\<forall>i\<in>set (filter (\<lambda>i. nat limit > 100 \<and> i mod (nat limit div 10) = 0) [2..<nat limit + 1]).
              int i \<le> limit" using r by auto
      show "0 < limit" using r by simp
    qed
  qed
qed

lemma sortArray_shape: "handler_shape rnd ident (snd (handleSortArray num nsort heap data ident))"
  by (simp add: handleSortArray_def Let_def handler_shape_single handler_shape_thrown
      split: option.splits prod.splits)


section \<open>The values computed by fib\<close>

lemma fibonacci_pair:
  "fold (\<lambda>i (a, b). (b, a + b)) [2..<n + 2] (0, 1) = (fibonacci n, fibonacci (Suc n))"
  by (induction n) simp_all

lemma fibonacci_78_79: "fibonacci 78 = 8944394323791464" "fibonacci 79 = 14472334024676221"
proof -
  have "fold (\<lambda>i (a, b). (b, a + b)) [2..<80] (0, 1 :: nat)
          = (8944394323791464 :: nat, 14472334024676221 :: nat)"
    by (simp del: One_nat_def)
  moreover have "fold (\<lambda>i (a, b). (b, a + b)) [2..<78 + 2] (0, 1 :: nat)
          = (fibonacci 78, fibonacci (Suc 78))"
    by (rule fibonacci_pair)
  ultimately have "(fibonacci 78, fibonacci (Suc 78))
     = (8944394323791464 :: nat, 14472334024676221 :: nat)"
    by (simp only: numeral_plus_numeral semiring_norm)
  then show "fibonacci 78 = 8944394323791464" "fibonacci 79 = 14472334024676221"
    by (simp_all only: prod.inject Suc_numeral semiring_norm)
qed

lemma fibonacci_Suc_le: "fibonacci n \<le> fibonacci (Suc n)"
  by (cases n) simp_all

lemma fibonacci_mono: "m \<le> n \<Longrightarrow> fibonacci m \<le> fibonacci n"
  by (rule lift_Suc_mono_le [of fibonacci]) (simp_all add: fibonacci_Suc_le)

lemma fibonacci_small: "n \<le> 78 \<Longrightarrow> fibonacci n < 2 ^ 53"
proof -
  assume "n \<le> 78"
  then have "fibonacci n \<le> fibonacci 78" by (rule fibonacci_mono)
  also have "\<dots> < 2 ^ 53" by (simp add: fibonacci_78_79)
  finally show ?thesis .
qed

lemma fib_loop_exact:
  "n + 1 \<le> 78 \<Longrightarrow>
   fold (\<lambda>i (a, b). (b, js_add a b)) [2..<n + 2] (0, 1) = (fibonacci n, fibonacci (Suc n))"
proof (induction n)
  case 0
  then show ?case by simp
next
  case (Suc n)
  have "fibonacci (Suc (Suc n)) < 2 ^ 53" using Suc.prems by (intro fibonacci_small) simp
  then have "js_add (fibonacci n) (fibonacci (Suc n)) = fibonacci (Suc (Suc n))"
    by (simp add: js_add_def round_to_double_def add.commute)
  then show ?case using Suc by simp
qed

lemma fib_exact: "k \<le> 78 \<Longrightarrow> fib k = fibonacci k"
proof (cases "k \<le> 1")
  case True
  then have "k = 0 \<or> k = 1" by auto
  then show ?thesis by (auto simp: fib_def)
next
  case False
  assume k: "k \<le> 78"
  from False obtain n where n: "k = Suc n" by (cases k) auto
  have "fold (\<lambda>i (a, b). (b, js_add a b)) [2..<n + 2] (0, 1) = (fibonacci n, fibonacci (Suc n))"
    using k n by (intro fib_loop_exact) simp
  then show ?thesis using False n by (simp add: fib_def)
qed

lemma fib_79: "fib 79 = 14472334024676220"
proof -
  let ?f = "\<lambda>(i::nat) (a, b). (b, js_add a b)"
  have "fold ?f [2..<77 + 2] (0, 1) = (fibonacci 77, fibonacci (Suc 77))"
    by (rule fib_loop_exact) simp
  moreover have "(77::nat) + 2 = 79" "Suc 77 = 78" by simp_all
  ultimately have e: "fold ?f [2..<79] (0, 1) = (fibonacci 77, fibonacci 78)"
    by (simp only:)
  have "[2..<Suc 79] = [2..<79] @ [79]" by (rule upt_Suc_append) simp
  moreover have "Suc 79 = 79 + 1" by simp
  ultimately have u: "[2..<79 + 1] = [2..<79] @ [79]" by (simp only:)
  have c: "\<not> (79::nat) \<le> 1" by simp
  have "fib 79 = snd (fold ?f [2..<79 + 1] (0, 1))"
    unfolding fib_def by (simp only: c if_False)
  also have "\<dots> = js_add (fibonacci 77) (fibonacci 78)"
    by (simp only: u fold_append comp_apply e fold_simps prod.case snd_conv)
  also have "\<dots> = round_to_double (fibonacci 79)"
  proof -
    have "fibonacci (Suc (Suc 77)) = fibonacci (Suc 77) + fibonacci 77" by (rule fibonacci.simps)
    moreover have "Suc 77 = 78" "Suc 78 = 79" by simp_all
    ultimately have "fibonacci 79 = fibonacci 78 + fibonacci 77" by (simp only:)
    then show ?thesis by (simp only: js_add_def add.commute)
  qed
  also have "\<dots> = 14472334024676220"
    by (simp add: fibonacci_78_79 round_to_double_def bit_length.simps)
  finally show ?thesis .
qed

text \<open>
  No sum of \<open>fib\<close> leaves the range of the doubles: rounding never exceeds the next
  power of two, so \<open>fib n\<close> is at most \<open>2^n\<close>.
\<close>

lemma bit_length_lower: "0 < n \<Longrightarrow> 2 ^ (bit_length n - 1) \<le> n"
proof (induction n rule: bit_length.induct)
  case (1 n)
  show ?case
  proof (cases "n div 2 = 0")
    case True
    then have "bit_length n = 1" using "1.prems"
      by (simp add: bit_length.simps [of n] bit_length.simps [of 0])
    then show ?thesis using "1.prems" by simp
  next
    case False
    then have "2 ^ (bit_length (n div 2) - 1) \<le> n div 2" using "1.IH" "1.prems" by simp
    moreover have "0 < bit_length (n div 2)" using False by (simp add: bit_length.simps [of "n div 2"])
    ultimately have "2 ^ bit_length (n div 2) \<le> 2 * (n div 2)"
      by (cases "bit_length (n div 2)") simp_all
    also have "\<dots> \<le> n" by simp
    finally show ?thesis using "1.prems" by (simp add: bit_length.simps [of n])
  qed
qed

lemma round_to_double_le_power:
  assumes "n \<le> 2 ^ k"
  shows "round_to_double n \<le> 2 ^ k"
proof (cases "n < 2 ^ 53")
  case True
  then show ?thesis using assms by (simp add: round_to_double_def)
next
  case False
  define e where "e = bit_length n - 53"
  define q where "q = n div 2 ^ e"
  define r where "r = n mod 2 ^ e"
  have n0: "0 < n" using False by (cases n) simp_all
  have "(2::nat) ^ (bit_length n - 1) \<le> 2 ^ k"
    using bit_length_lower [OF n0] assms by (rule order_trans)
  then have "bit_length n - 1 \<le> k" by simp
  then have ek: "e \<le> k" by (simp add: e_def)
  have n: "n = q * 2 ^ e + r" unfolding q_def r_def by (rule div_mult_mod_eq [symmetric])
  have pk: "(2::nat) ^ k = 2 ^ (k - e) * 2 ^ e" using ek by (simp flip: power_add)
  have rd: "round_to_double n =
     (if r < 2 ^ (e - 1) then q else if 2 ^ (e - 1) < r then q + 1
      else if even q then q else q + 1) * 2 ^ e"
    using False by (simp add: round_to_double_def Let_def e_def q_def r_def)
  have qle: "q \<le> 2 ^ (k - e)"
  proof -
    have "q * 2 ^ e \<le> n" using n by simp
    also have "\<dots> \<le> 2 ^ (k - e) * 2 ^ e" using assms pk by simp
    finally show ?thesis by simp
  qed
  show ?thesis
  proof (cases "q = 2 ^ (k - e)")
    case True
    then have "q * 2 ^ e = 2 ^ k" using pk by simp
    then have "r = 0" using n assms by simp
    then have "round_to_double n = q * 2 ^ e" by (simp add: rd)
    then show ?thesis using True pk by simp
  next
    case False
    then have "q + 1 \<le> 2 ^ (k - e)" using qle by simp
    then have "(q + 1) * 2 ^ e \<le> 2 ^ k" unfolding pk by (rule mult_le_mono1)
    moreover have "round_to_double n \<le> (q + 1) * 2 ^ e" by (simp add: rd)
    ultimately show ?thesis by (rule order_trans [rotated])
  qed
qed

lemma fib_loop_bound:
  "fst (fold (\<lambda>i (a, b). (b, js_add a b)) [2..<n + 2] (0, 1)) \<le> 2 ^ n
   \<and> snd (fold (\<lambda>i (a, b). (b, js_add a b)) [2..<n + 2] (0, 1)) \<le> 2 ^ (n + 1)"
proof (induction n)
  case 0
  then show ?case by simp
next
  case (Suc n)
  obtain a b where s: "fold (\<lambda>i (a, b). (b, js_add a b)) [2..<n + 2] (0, 1) = (a, b)"
    by (rule prod.exhaust)
  with Suc have ab: "a \<le> 2 ^ n" "b \<le> 2 ^ (n + 1)" by simp_all
  then have "a + b \<le> 2 ^ (Suc n + 1)" by simp
  then have "js_add a b \<le> 2 ^ (Suc n + 1)" unfolding js_add_def by (rule round_to_double_le_power)
  then show ?case using s ab by simp
qed

lemma fib_le_power: "fib n \<le> 2 ^ n"
proof (cases "n \<le> 1")
  case True
  then have "n = 0 \<or> n = 1" by auto
  then show ?thesis by (auto simp: fib_def)
next
  case False
  then obtain m where m: "n = Suc m" by (cases n) auto
  have "snd (fold (\<lambda>i (a, b). (b, js_add a b)) [2..<m + 2] (0, 1)) \<le> 2 ^ (m + 1)"
    using fib_loop_bound [of m] by simp
  then show ?thesis using False m by (simp add: fib_def)
qed

lemma fib_no_overflow: "n \<le> 1000 \<Longrightarrow> fib n < 2 ^ 1024"
proof -
  assume "n \<le> 1000"
  have "fib n \<le> 2 ^ n" by (rule fib_le_power)
  also have "\<dots> \<le> (2::nat) ^ 1000" using \<open>n \<le> 1000\<close> by (intro power_increasing) simp_all
  also have "\<dots> < 2 ^ 1024" by (intro power_strict_increasing) simp_all
  finally show ?thesis .
qed

section \<open>The counter of simulateWork\<close>









section \<open>The emissions of one request\<close>

subsection \<open>The event loop after a request\<close>

text \<open>
  A timer that has been cleared, or was never created, posts nothing however often it is
  asked to fire. The emissions of a request that starts no timer are those of the
  listener; the emissions of a request that starts one are followed by those of its ticks.
\<close>

lemma run_idle:
  "w_timers w = [] \<or> w_timers w = [None] \<Longrightarrow>
   run rnd msqrt num nsort w (replicate k (Fire 0)) = []"
  by (induction k) (auto simp: step_def)

lemma request_emissions_sync:
  assumes "on_message rnd msqrt num nsort heap req = (heap', msgs, None)"
  shows "request_emissions rnd msqrt num nsort heap req k = msgs"
proof -
  have "run rnd msqrt num nsort \<lparr> w_heap = heap', w_timers = [] \<rparr> (replicate k (Fire 0)) = []"
    by (rule run_idle) simp
  then show ?thesis by (simp add: request_emissions_def step_def assms)
qed


subsection \<open>The ticks of a timer\<close>







subsection \<open>Progress values of a timer\<close>









subsection \<open>The shape of the emissions\<close>










section \<open>No handler announces readiness\<close>

lemma handler_no_ready:
  assumes "handler_shape rnd ident out"
  shows "list_all (\<lambda>m. \<not> is_ready m) (fst out)"
proof (cases out)
  case (Pair msgs thrown)
  show ?thesis
  proof (cases thrown)
    case (Some e)
    then show ?thesis using assms Pair by (simp add: handler_shape_def)
  next
    case None
    then obtain ps d n "is" where m: "msgs = ps @ [Success ident d]"
      and l: "list_all2 (progress_at ident rnd n) ps is"
      using assms Pair by (auto simp: handler_shape_def)
    have "list_all is_progress ps" using progress_list_basic [OF l] by simp
    then have "list_all (\<lambda>m. \<not> is_ready m) ps"
      by (induction ps) (auto elim: is_progress.elims)
    then show ?thesis using Pair m by simp
  qed
qed

lemma dispatch_no_ready:
  "list_all (\<lambda>m. \<not> is_ready m)
     (fst (fst (snd (dispatch rnd msqrt num nsort heap req))) :: 'a message list)"
proof -
  have "list_all (\<lambda>m. \<not> is_ready m)
          (fst (snd (handleSortArray num nsort heap (req_data req) (req_id req))))"
    using handler_no_ready [OF sortArray_shape] .
  moreover have "list_all (\<lambda>m. \<not> is_ready m)
          (fst (handleCalculate rnd (req_data req) (req_id req) :: 'a outcome))"
    by (rule handler_no_ready [OF calculate_shape])
  moreover have "list_all (\<lambda>m. \<not> is_ready m)
          (fst (handleProcessData rnd msqrt (req_data req) (req_id req) :: 'a outcome))"
    by (rule handler_no_ready [OF processData_shape])
  moreover have "list_all (\<lambda>m. \<not> is_ready m)
          (fst (handleFibonacci rnd (req_data req) (req_id req) :: 'a outcome))"
    by (rule handler_no_ready [OF fibonacci_shape])
  moreover have "list_all (\<lambda>m. \<not> is_ready m)
          (fst (handlePrimeNumbers rnd (req_data req) (req_id req) :: 'a outcome))"
    by (rule handler_no_ready [OF primeNumbers_shape])
  ultimately show ?thesis
    by (auto simp: dispatch_def Let_def split: sum.splits prod.splits)
qed

lemma on_message_no_ready:
  "list_all (\<lambda>m. \<not> is_ready m)
     (fst (snd (on_message rnd msqrt num nsort heap req)) :: 'a message list)"
proof -
  obtain heap' and msgs :: "'a message list" and thrown timer
    where d: "dispatch rnd msqrt num nsort heap req = (heap', (msgs, thrown), timer)"
    by (metis prod_cases3 surj_pair)
  have "list_all (\<lambda>m. \<not> is_ready m)
     (fst (fst (snd (dispatch rnd msqrt num nsort heap req))) :: 'a message list)"
    by (rule dispatch_no_ready)
  then have "list_all (\<lambda>m. \<not> is_ready m) msgs" by (simp add: d)
  then show ?thesis by (cases thrown) (simp_all add: on_message_def d)
qed

lemma tick_no_ready:
  "list_all (\<lambda>m. \<not> is_ready m) (fst (tick rnd t) :: 'a message list)"
  by (simp add: tick_def Let_def)

lemma step_no_ready:
  "list_all (\<lambda>m. \<not> is_ready m) (snd (step rnd msqrt num nsort w ev) :: 'a message list)"
proof (cases ev)
  case (Deliver req)
  obtain heap' and msgs :: "'a message list" and timer
    where m: "on_message rnd msqrt num nsort (w_heap w) req = (heap', msgs, timer)"
    by (rule prod_cases3)
  have "list_all (\<lambda>m. \<not> is_ready m)
          (fst (snd (on_message rnd msqrt num nsort (w_heap w) req)) :: 'a message list)"
    by (rule on_message_no_ready)
  then have "list_all (\<lambda>m. \<not> is_ready m) msgs" by (simp add: m)
  then show ?thesis using Deliver by (simp add: step_def m)
next
  case (Fire k)
  show ?thesis
  proof (cases "k < length (w_timers w)")
    case False
    then show ?thesis using Fire by (simp add: step_def)
  next
    case True
    show ?thesis
    proof (cases "w_timers w ! k")
      case None
      then show ?thesis using Fire True by (simp add: step_def)
    next
      case (Some t)
      obtain msgs :: "'a message list" and t' where k: "tick rnd t = (msgs, t')"
        by (rule prod.exhaust)
      have "list_all (\<lambda>m. \<not> is_ready m) (fst (tick rnd t) :: 'a message list)"
        by (rule tick_no_ready)
      then have "list_all (\<lambda>m. \<not> is_ready m) msgs" by (simp add: k)
      then show ?thesis using Fire True Some by (simp add: step_def k)
    qed
  qed
qed

lemma run_no_ready:
  "list_all (\<lambda>m. \<not> is_ready m) (run rnd msqrt num nsort w evs :: 'a message list)"
proof (induction evs arbitrary: w)
  case Nil
  then show ?case by simp
next
  case (Cons ev evs)
  obtain w' and msgs :: "'a message list" where s: "step rnd msqrt num nsort w ev = (w', msgs)"
    by (rule prod.exhaust)
  have "list_all (\<lambda>m. \<not> is_ready m) (snd (step rnd msqrt num nsort w ev) :: 'a message list)"
    by (rule step_no_ready)
  then have "list_all (\<lambda>m. \<not> is_ready m) msgs" by (simp add: s)
  then show ?case using Cons [of w'] s by simp
qed

section \<open>Claims about the message protocol\<close>




text \<open>
  C4, as stated: the ready response emitted at startup has the id \<open>ready-token\<close>.
  The script posts it with the id \<open>init\<close>.
\<close>

theorem ready_id_is_init:
  "hd (worker_trace Fin Fin val_key id ([] :: jsval list list) []) = Ready (Some ''init'') supportedCommands
   \<and> message_id (hd (worker_trace Fin Fin val_key id ([] :: jsval list list) [])) \<noteq> Some ''ready-token''"
  by (simp add: worker_trace_def startup_def)

text \<open>
  C4, amended: at startup, before any request or timer event is processed, the executor
  emits exactly one ready response; its id is \<open>init\<close> and it lists the six supported
  command names. No later event, whatever the sequence of requests and timer firings,
  produces another ready response.
\<close>

theorem ready_emitted_once_at_startup:
  "worker_trace rnd msqrt num nsort heap evs =
     Ready (Some ''init'')
       [''calculate'', ''processData'', ''simulateWork'', ''fibonacci'', ''primeNumbers'',
        ''sortArray'']
     # run rnd msqrt num nsort \<lparr> w_heap = heap, w_timers = [] \<rparr> evs
   \<and> filter is_ready (worker_trace rnd msqrt num nsort heap evs) =
       [Ready (Some ''init'')
         [''calculate'', ''processData'', ''simulateWork'', ''fibonacci'', ''primeNumbers'',
          ''sortArray'']]"
proof -
  have "filter is_ready (run rnd msqrt num nsort \<lparr> w_heap = heap, w_timers = [] \<rparr> evs) = []"
    using run_no_ready [of rnd msqrt num nsort "\<lparr> w_heap = heap, w_timers = [] \<rparr>" evs]
    by (simp add: filter_empty_conv list_all_iff)
  then show ?thesis by (simp add: worker_trace_def startup_def supportedCommands_def)
qed

section \<open>Claims about handleCalculate\<close>

text \<open>
  C6. Calculate with operation \<open>average\<close> and no numbers raises no error: the sum 0 is
  divided by the count 0 and the single response is a success whose result is that
  non-finite value, NaN. This holds for the handler and for the whole request, whose
  emissions are this one response at any time.
\<close>

theorem average_of_no_numbers:
  "handleCalculate rnd
      (Some (d\<lparr> data_operation := Some ''average'', data_numbers := Some [] \<rparr>)) ident
     = ([Success ident (CalculateDone NaN ''average'')], None)
   \<and> request_emissions rnd msqrt num nsort heap
        \<lparr> req_command = Some ''calculate'',
          req_data = Some (d\<lparr> data_operation := Some ''average'', data_numbers := Some [] \<rparr>),
          req_id = ident \<rparr> k
     = [Success ident (CalculateDone NaN ''average'')]"
proof -
  let ?req = "\<lparr> req_command = Some ''calculate'',
          req_data = Some (d\<lparr> data_operation := Some ''average'', data_numbers := Some [] \<rparr>),
          req_id = ident \<rparr>"
  have h: "handleCalculate rnd
      (Some (d\<lparr> data_operation := Some ''average'', data_numbers := Some [] \<rparr>)) ident
     = ([Success ident (CalculateDone NaN ''average'')], None)"
    by (simp add: handleCalculate_def jsign_inf_def)
  have "on_message rnd msqrt num nsort heap ?req
          = (heap, [Success ident (CalculateDone NaN ''average'')], None)"
    by (simp add: on_message_def dispatch_def h)
  then have "request_emissions rnd msqrt num nsort heap ?req k
          = [Success ident (CalculateDone NaN ''average'')]"
    by (rule request_emissions_sync)
  then show ?thesis using h by simp
qed

text \<open>
  C10. Calculate with operation \<open>max\<close> (respectively \<open>min\<close>) and no numbers raises no
  error: the single response is a success whose result is negative (respectively positive)
  infinity.
\<close>

theorem extrema_of_no_numbers:
  "handleCalculate rnd
      (Some (d\<lparr> data_operation := Some ''max'', data_numbers := Some [] \<rparr>)) ident
     = ([Success ident (CalculateDone NegInf ''max'')], None)
   \<and> handleCalculate rnd
      (Some (d\<lparr> data_operation := Some ''min'', data_numbers := Some [] \<rparr>)) ident
     = ([Success ident (CalculateDone PosInf ''min'')], None)
   \<and> request_emissions rnd msqrt num nsort heap
        \<lparr> req_command = Some ''calculate'',
          req_data = Some (d\<lparr> data_operation := Some ''max'', data_numbers := Some [] \<rparr>),
          req_id = ident \<rparr> k
     = [Success ident (CalculateDone NegInf ''max'')]
   \<and> request_emissions rnd msqrt num nsort heap
        \<lparr> req_command = Some ''calculate'',
          req_data = Some (d\<lparr> data_operation := Some ''min'', data_numbers := Some [] \<rparr>),
          req_id = ident \<rparr> k
     = [Success ident (CalculateDone PosInf ''min'')]"
proof -
  let ?max = "\<lparr> req_command = Some ''calculate'',
          req_data = Some (d\<lparr> data_operation := Some ''max'', data_numbers := Some [] \<rparr>),
          req_id = ident \<rparr>"
  let ?min = "\<lparr> req_command = Some ''calculate'',
          req_data = Some (d\<lparr> data_operation := Some ''min'', data_numbers := Some [] \<rparr>),
          req_id = ident \<rparr>"
  have h: "handleCalculate rnd
      (Some (d\<lparr> data_operation := Some ''max'', data_numbers := Some [] \<rparr>)) ident
     = ([Success ident (CalculateDone NegInf ''max'')], None)"
    "handleCalculate rnd
      (Some (d\<lparr> data_operation := Some ''min'', data_numbers := Some [] \<rparr>)) ident
     = ([Success ident (CalculateDone PosInf ''min'')], None)"
    by (simp_all add: handleCalculate_def)
  have "on_message rnd msqrt num nsort heap ?max
          = (heap, [Success ident (CalculateDone NegInf ''max'')], None)"
    by (simp add: on_message_def dispatch_def h)
  then have a: "request_emissions rnd msqrt num nsort heap ?max k
          = [Success ident (CalculateDone NegInf ''max'')]"
    by (rule request_emissions_sync)
  have "on_message rnd msqrt num nsort heap ?min
          = (heap, [Success ident (CalculateDone PosInf ''min'')], None)"
    by (simp add: on_message_def dispatch_def h)
  then have b: "request_emissions rnd msqrt num nsort heap ?min k
          = [Success ident (CalculateDone PosInf ''min'')]"
    by (rule request_emissions_sync)
  show ?thesis using h a b by simp
qed

section \<open>Claims about unknown commands\<close>

text \<open>
  C9, as stated: the error response for an unknown command uses the request's id, and a
  fallback token only when the id is absent. The listener writes \<open>id || 'unknown'\<close>, so a
  request whose id is the empty string is answered under the fallback too.
\<close>

theorem unknown_command_empty_id:
  "request_emissions Fin Fin val_key id ([] :: jsval list list)
        \<lparr> req_command = Some ''bogus'', req_data = None, req_id = Some '''' \<rparr> 0
     = [Failure (Some ''unknown'') (UnknownCommand (Some ''bogus''))]
   \<and> message_id (hd (request_emissions Fin Fin val_key id ([] :: jsval list list)
        \<lparr> req_command = Some ''bogus'', req_data = None, req_id = Some '''' \<rparr> 0))
     \<noteq> Some ''''"
  by (simp add: request_emissions_def step_def on_message_def dispatch_def id_or_unknown_def)

text \<open>
  C9, amended: for every request whose command is not one of the six recognised values
  the executor emits exactly one error response, whose message names the unknown command,
  and invokes no handler (the arrays are untouched and no timer is started). The response
  uses the request's id when that is a non-empty string, and the fallback token
  \<open>unknown\<close> when the id is absent or empty.
\<close>

theorem unknown_command_error:
  assumes "req_command req \<notin> Some ` set supportedCommands"
  shows "on_message rnd msqrt num nsort heap req =
           (heap,
            [Failure (case req_id req of
                        None \<Rightarrow> Some ''unknown''
                      | Some s \<Rightarrow> if s = [] then Some ''unknown'' else Some s)
                     (UnknownCommand (req_command req))],
            None)
       \<and> request_emissions rnd msqrt num nsort heap req k =
            [Failure (case req_id req of
                        None \<Rightarrow> Some ''unknown''
                      | Some s \<Rightarrow> if s = [] then Some ''unknown'' else Some s)
                     (UnknownCommand (req_command req))]"
proof -
  have om: "on_message rnd msqrt num nsort heap req =
           (heap,
            [Failure (case req_id req of
                        None \<Rightarrow> Some ''unknown''
                      | Some s \<Rightarrow> if s = [] then Some ''unknown'' else Some s)
                     (UnknownCommand (req_command req))],
            None)"
    using assms
    by (simp add: on_message_def dispatch_def supportedCommands_def id_or_unknown_def image_iff)
  show ?thesis using om request_emissions_sync [OF om, of k] by simp
qed

theorem unknown_command_error_witness:
  "Some ''bogus'' \<notin> Some ` set supportedCommands
   \<and> request_emissions Fin Fin val_key id ([] :: jsval list list)
        \<lparr> req_command = Some ''bogus'', req_data = None, req_id = Some ''x'' \<rparr> 0
     = [Failure (Some ''x'') (UnknownCommand (Some ''bogus''))]"
proof -
  have h: "req_command \<lparr> req_command = Some ''bogus'', req_data = None, req_id = Some ''x'' \<rparr>
            \<notin> Some ` set supportedCommands"
    by (simp add: supportedCommands_def)
  show ?thesis
    using h unknown_command_error [OF h, of Fin Fin val_key id "[] :: jsval list list" 0]
    by simp
qed

section \<open>Claims about handleSortArray\<close>

text \<open>
  C5. For every sortArray request whose \<open>array\<close> is an array of the store, the handler
  leaves that array, and every other array that existed before, unchanged: each algorithm
  (quick, merge, bubble and the fallback) works on the private copy made by
  \<open>[...array]\<close>, although \<open>bubbleSort\<close> itself overwrites the array it is given.
\<close>

theorem sortArray_keeps_input:
  assumes "data_array d = Some a" and "a < length heap"
  shows "fst (handleSortArray num nsort heap (Some d) ident) ! a = heap ! a
       \<and> take (length heap) (fst (handleSortArray num nsort heap (Some d) ident)) = heap
       \<and> fst (on_message rnd msqrt num nsort heap
               \<lparr> req_command = Some ''sortArray'', req_data = Some d, req_id = ident \<rparr>) ! a
           = heap ! a
       \<and> bubbleSort_at num a heap ! a = bubbleSort num (heap ! a)"
  using assms
  by (simp add: handleSortArray_def copy_array_def bubbleSort_at_def native_sort_at_def
      on_message_def dispatch_def Let_def nth_append split: prod.splits)

theorem sortArray_keeps_input_witness:
  "data_array (empty_payload\<lparr> data_array := Some 0, data_algorithm := Some ''bubble'' \<rparr>) = Some 0
   \<and> 0 < length [[Number (Fin 3), Number (Fin 1), Number (Fin 2)]]
   \<and> handleSortArray val_key id [[Number (Fin 3), Number (Fin 1), Number (Fin 2)]]
        (Some (empty_payload\<lparr> data_array := Some 0, data_algorithm := Some ''bubble'' \<rparr>))
        (Some ''s'')
     = ([[Number (Fin 3), Number (Fin 1), Number (Fin 2)],
         [Number (Fin 1), Number (Fin 2), Number (Fin 3)]],
        [Success (Some ''s'')
           (SortArrayDone [Number (Fin 1), Number (Fin 2), Number (Fin 3)] ''bubble'' 3)],
        None)
   \<and> fst (handleSortArray val_key id [[Number (Fin 3), Number (Fin 1), Number (Fin 2)]]
        (Some (empty_payload\<lparr> data_array := Some 0, data_algorithm := Some ''bubble'' \<rparr>))
        (Some ''s'')) ! 0 = [Number (Fin 3), Number (Fin 1), Number (Fin 2)]"
proof -
  have e: "handleSortArray val_key id [[Number (Fin 3), Number (Fin 1), Number (Fin 2)]]
        (Some (empty_payload\<lparr> data_array := Some 0, data_algorithm := Some ''bubble'' \<rparr>))
        (Some ''s'')
     = ([[Number (Fin 3), Number (Fin 1), Number (Fin 2)],
         [Number (Fin 1), Number (Fin 2), Number (Fin 3)]],
        [Success (Some ''s'')
           (SortArrayDone [Number (Fin 1), Number (Fin 2), Number (Fin 3)] ''bubble'' 3)],
        None)"
    by (simp add: handleSortArray_def copy_array_def bubbleSort_at_def empty_payload_def
        bubbleSort_def inner_loop_def swap_step_def js_less_val_key Let_def)
  show ?thesis
    using e sortArray_keeps_input [of "empty_payload\<lparr> data_array := Some 0,
      data_algorithm := Some ''bubble'' \<rparr>" 0
      "[[Number (Fin 3), Number (Fin 1), Number (Fin 2)]]" val_key id "Some ''s''"]
    by simp
qed

section \<open>Claims about handleFibonacci\<close>

text \<open>
  C7, as stated: for every n in [0, 1000] the result is the sequence of Fibonacci numbers
  up to the n-th and \<open>nthValue\<close> is the n-th Fibonacci number. The handler adds JavaScript
  numbers: from the 79th term on the sum exceeds \<open>2^53\<close> and is rounded. For n = 79 the
  handler reports 14472334024676220, while the 79th Fibonacci number is
  14472334024676221.
\<close>

theorem fibonacci_rounds_at_79:
  "(handleFibonacci Fin (Some (empty_payload\<lparr> data_n := Some 79 \<rparr>)) (Some ''f'')
       :: int outcome)
     = (map (\<lambda>i. Progress (Some ''f'') (percent Fin (int i) 79) (FibProgress i 79))
            (filter (\<lambda>i. int i mod 7 = 0) [0..<80])
        @ [Success (Some ''f'') (FibonacciDone (map fib [0..<80]) 80 14472334024676220)],
        None :: js_error option)
   \<and> fibonacci 79 = 14472334024676221
   \<and> fib 79 \<noteq> fibonacci 79"
proof -
  have "(handleFibonacci Fin (Some (empty_payload\<lparr> data_n := Some 79 \<rparr>)) (Some ''f'')
       :: int outcome)
     = (map (\<lambda>i. Progress (Some ''f'') (percent Fin (int i) 79) (FibProgress i 79))
            (filter (\<lambda>i. (79::int) > 10 \<and> int i mod (79 div 10) = 0) [0..<nat 79 + 1])
        @ [Success (Some ''f'') (FibonacciDone (map fib [0..<nat 79 + 1]) (nat 79 + 1)
             (fib (nat 79)))],
        None)"
    by (rule fibonacci_outcome [of _ "empty_payload\<lparr> data_n := Some 79 \<rparr>"])
       (simp_all add: empty_payload_def)
  moreover have "nat 79 + 1 = 80" "nat 79 = 79" "(79::int) div 10 = 7" "(79::int) > 10" by simp_all
  ultimately show ?thesis
    by (simp only: fib_79 fibonacci_78_79 simp_thms)
qed

text \<open>
  C7, amended: for every integer n in [0, 1000] Fibonacci emits, after the progress
  messages if any, a single success response whose result holds the n + 1 values
  \<open>fib 0, \<dots>, fib n\<close> of the handler's own \<open>fib\<close> (the recurrence evaluated in double
  precision), whose length field is n + 1 and whose nthValue field is \<open>fib n\<close>; for
  n up to 78 these values are exactly the Fibonacci numbers (for n = 10 the result is
  0, 1, 1, 2, 3, 5, 8, 13, 21, 34, 55). For every n outside [0, 1000] the handler fails with the
  range error before emitting anything.
\<close>

theorem fibonacci_handler:
  "(let n = (case data_n d of None \<Rightarrow> 20 | Some v \<Rightarrow> v);
        (msgs, thrown) = handleFibonacci rnd (Some d) ident
    in if n < 0 \<or> 1000 < n then msgs = [] \<and> thrown = Some FibRange
       else thrown = None \<and> msgs \<noteq> [] \<and> list_all is_progress (butlast msgs)
          \<and> last msgs = Success ident
                (FibonacciDone (map fib [0..<nat n + 1]) (nat n + 1) (fib (nat n)))
          \<and> (n \<le> 78 \<longrightarrow> map fib [0..<nat n + 1] = map fibonacci [0..<nat n + 1]))"
proof -
  define n where "n = (case data_n d of None \<Rightarrow> 20 | Some v \<Rightarrow> v)"
  show ?thesis
  proof (cases "n < 0 \<or> 1000 < n")
    case True
    then show ?thesis using n_def by (simp add: handleFibonacci_def Let_def)
  next
    case False
    then have r: "0 \<le> n" "n \<le> 1000" by simp_all
    let ?ps = "map (\<lambda>i. Progress ident (percent rnd (int i) n) (FibProgress i n))
                 (filter (\<lambda>i. n > 10 \<and> int i mod (n div 10) = 0) [0..<nat n + 1])"
    have out: "handleFibonacci rnd (Some d) ident =
       (?ps @ [Success ident (FibonacciDone (map fib [0..<nat n + 1]) (nat n + 1) (fib (nat n)))],
        None)"
      by (rule fibonacci_outcome [OF refl n_def r])
    have p: "list_all is_progress ?ps" by (simp add: list_all_iff del: upt_Suc)
    have e: "map fib [0..<nat n + 1] = map fibonacci [0..<nat n + 1]" if "n \<le> 78"
      using that by (intro map_cong refl fib_exact) auto
    show ?thesis
      unfolding n_def [symmetric] Let_def out prod.case butlast_snoc last_snoc
      using False p e by simp
  qed
qed

theorem fibonacci_handler_witness:
  "(10::int) \<le> 78
   \<and> (handleFibonacci Fin (Some (empty_payload\<lparr> data_n := Some 10 \<rparr>)) (Some ''f'')
        :: int outcome)
     = ([Success (Some ''f'') (FibonacciDone [0, 1, 1, 2, 3, 5, 8, 13, 21, 34, 55] 11 55)], None)
   \<and> map fibonacci [0..<11] = [0, 1, 1, 2, 3, 5, 8, 13, 21, 34, 55]"
proof -
  let ?d = "empty_payload\<lparr> data_n := Some 10 \<rparr>"
  have u: "[0..<11] = [0, 1, 2, 3, 4, 5, 6, 7, 8, 9, 10 :: nat]"
    by (simp add: upt_rec [of 0] upt_rec [of "Suc 0"] numeral_2_eq_2 [symmetric])
  have f: "map fib [0..<11] = [0, 1, 1, 2, 3, 5, 8, 13, 21, 34, 55]"
    unfolding u by (simp add: fib_def js_add_def round_to_double_def del: One_nat_def)
  have n: "(case data_n ?d of None \<Rightarrow> 20 | Some v \<Rightarrow> v) = 10"
    by (simp add: empty_payload_def)
  have "let n = (case data_n ?d of None \<Rightarrow> 20 | Some v \<Rightarrow> v);
        (msgs, thrown) = (handleFibonacci Fin (Some ?d) (Some ''f'') :: int outcome)
    in if n < 0 \<or> 1000 < n then msgs = [] \<and> thrown = Some FibRange
       else thrown = None \<and> msgs \<noteq> [] \<and> list_all is_progress (butlast msgs)
          \<and> last msgs = Success (Some ''f'')
                (FibonacciDone (map fib [0..<nat n + 1]) (nat n + 1) (fib (nat n)))
          \<and> (n \<le> 78 \<longrightarrow> map fib [0..<nat n + 1] = map fibonacci [0..<nat n + 1])"
    by (rule fibonacci_handler)
  moreover have "nat 10 + 1 = 11" by simp
  ultimately have m: "map fib [0..<11] = map fibonacci [0..<11]"
    unfolding n Let_def by (auto simp only: split: prod.splits if_splits)
  have "(handleFibonacci Fin (Some ?d) (Some ''f'') :: int outcome)
     = (map (\<lambda>i. Progress (Some ''f'') (percent Fin (int i) 10) (FibProgress i 10))
            (filter (\<lambda>i. (10::int) > 10 \<and> int i mod (10 div 10) = 0) [0..<nat 10 + 1])
        @ [Success (Some ''f'') (FibonacciDone (map fib [0..<nat 10 + 1]) (nat 10 + 1)
             (fib (nat 10)))],
        None)"
    by (rule fibonacci_outcome [of _ ?d]) (simp_all add: empty_payload_def)
  moreover have "nat 10 + 1 = 11" "nat 10 = 10" by simp_all
  moreover have "fib 10 = 55"
    by (simp add: fib_def js_add_def round_to_double_def del: One_nat_def)
  ultimately have h: "(handleFibonacci Fin (Some ?d) (Some ''f'') :: int outcome)
     = ([Success (Some ''f'') (FibonacciDone [0, 1, 1, 2, 3, 5, 8, 13, 21, 34, 55] 11 55)], None)"
    by (simp only: f) simp
  show ?thesis using h m f by simp
qed

section \<open>Claims about handlePrimeNumbers\<close>



end
